theory Spec2Isabelle
  imports Complex_Main
begin

section \<open>OMAP radar: the engine beneath the display\<close>

text \<open>
  A shallow embedding of \<^verbatim>\<open>OMAP-Radar.py\<close>: the coordinate projector, the node store
  with its two Meshtastic handlers, the link builders (Prim's tree and the nearest
  neighbour links) and the wheel-zoom step of the camera.

  Python floats are idealised as the reals: there is no rounding, no overflow to
  \<open>inf\<close> and no NaN. The one infinity the source writes down itself,
  \<^verbatim>\<open>float("inf")\<close> in \<^verbatim>\<open>build_mst_edges\<close>, is kept as a constructor of its own.
\<close>

subsection \<open>Exceptions\<close>

datatype exc = TypeError | ValueError | AttributeError | ZeroDivisionError

subsection \<open>Coordinate projector\<close>

definition R_earth :: real where
  "R_earth = 111320"

definition radians :: "real \<Rightarrow> real" where
  "radians d = d * pi / 180"

text \<open>
  \<^verbatim>\<open>latlon_to_xy_m\<close>: an argument is \<open>None\<close> or a float. The guard
  \<^verbatim>\<open>None in (lat, lon, lat0, lon0)\<close> comes first.
\<close>

definition latlon_to_xy_m ::
  "real option \<Rightarrow> real option \<Rightarrow> real option \<Rightarrow> real option \<Rightarrow> (real \<times> real) option" where
  "latlon_to_xy_m lat lon lat0 lon0 =
     (if None \<in> set [lat, lon, lat0, lon0] then None
      else let x = (the lon - the lon0) * cos (radians (the lat0)) * R_earth;
               y = (the lat - the lat0) * R_earth
           in Some (x, y))"

text \<open>
  \<^verbatim>\<open>xy_m_to_latlon\<close> has no guard. Arithmetic on \<open>None\<close> raises \<open>TypeError\<close>, a float
  division by zero raises \<open>ZeroDivisionError\<close>; the checks below follow Python's order of
  evaluation, statement by statement and innermost operation first.
\<close>

definition xy_m_to_latlon ::
  "real option \<Rightarrow> real option \<Rightarrow> real option \<Rightarrow> real option \<Rightarrow> exc + (real \<times> real)" where
  "xy_m_to_latlon xm ym lat0 lon0 =
     (if ym = None \<or> lat0 = None then Inl TypeError
      else let lat = the lat0 + the ym / R_earth;
               den = R_earth * cos (radians (the lat0))
           in if xm = None then Inl TypeError
              else if den = 0 then Inl ZeroDivisionError
              else if lon0 = None then Inl TypeError
              else Inr (lat, the lon0 + the xm / den))"

subsection \<open>Python values\<close>

text \<open>
  The handlers receive decoded packets: nested dictionaries with string keys whose leaves
  are \<open>None\<close>, booleans, integers, floats, strings and bytes. \<^verbatim>\<open>PDict\<close> keeps the
  items as an association list (looked up with \<open>map_of\<close>).
\<close>

datatype pyval =
    PNone
  | PBool bool
  | PInt int
  | PFloat real
  | PStr string
  | PBytes string
  | PDict "(string \<times> pyval) list"

text \<open>
  What the handlers are called with: one of the values above, an object of another class
  that has a \<^verbatim>\<open>__dict__\<close> (its attributes), or an object that has none.
\<close>

datatype pyarg = Val pyval | Obj "(string \<times> pyval) list" | Opaque

text \<open>
  Two builtins are taken as parameters: \<^verbatim>\<open>float\<close> on text (which strings parse, and to
  what) and \<^verbatim>\<open>str\<close> on values that are not strings already.
\<close>

record builtins =
  float_of_text :: "string \<Rightarrow> real option"
  str_of :: "pyval \<Rightarrow> string"

fun truthy :: "pyval \<Rightarrow> bool" where
  "truthy PNone = False"
| "truthy (PBool b) = b"
| "truthy (PInt i) = (i \<noteq> 0)"
| "truthy (PFloat r) = (r \<noteq> 0)"
| "truthy (PStr s) = (s \<noteq> [])"
| "truthy (PBytes b) = (b \<noteq> [])"
| "truthy (PDict d) = (d \<noteq> [])"

text \<open>\<^verbatim>\<open>a or b\<close>, for operands whose evaluation cannot raise.\<close>

definition py_or :: "pyval \<Rightarrow> pyval \<Rightarrow> pyval" where
  "py_or a b = (if truthy a then a else b)"

fun is_dict :: "pyval \<Rightarrow> bool" where
  "is_dict (PDict d) = True"
| "is_dict v = False"

text \<open>\<^verbatim>\<open>d.get(k)\<close> on a dictionary: the value, or \<open>None\<close> for a missing key.\<close>

definition dict_get :: "(string \<times> pyval) list \<Rightarrow> string \<Rightarrow> pyval" where
  "dict_get d k = (case map_of d k of None \<Rightarrow> PNone | Some v \<Rightarrow> v)"

text \<open>\<^verbatim>\<open>x.get(k)\<close> on any value: only dictionaries have the method.\<close>

fun attr_get :: "pyval \<Rightarrow> string \<Rightarrow> exc + pyval" where
  "attr_get (PDict d) k = Inr (dict_get d k)"
| "attr_get v k = Inl AttributeError"

fun py_float :: "builtins \<Rightarrow> pyval \<Rightarrow> exc + real" where
  "py_float env PNone = Inl TypeError"
| "py_float env (PBool b) = Inr (if b then 1 else 0)"
| "py_float env (PInt i) = Inr (of_int i)"
| "py_float env (PFloat r) = Inr r"
| "py_float env (PStr s) =
     (case float_of_text env s of None \<Rightarrow> Inl ValueError | Some r \<Rightarrow> Inr r)"
| "py_float env (PBytes s) =
     (case float_of_text env s of None \<Rightarrow> Inl ValueError | Some r \<Rightarrow> Inr r)"
| "py_float env (PDict d) = Inl TypeError"

fun py_str :: "builtins \<Rightarrow> pyval \<Rightarrow> string" where
  "py_str env (PStr s) = s"
| "py_str env v = str_of env v"

subsection \<open>Node store\<close>

text \<open>
  Keys of the \<^verbatim>\<open>nodes\<close> dictionary. Python compares keys with \<open>==\<close>, under which
  \<open>True\<close>, \<open>1\<close> and \<open>1.0\<close> are one key; a dictionary is unhashable.
\<close>

datatype key = KNone | KNum real | KStr string | KBytes string

fun hash_key :: "pyval \<Rightarrow> exc + key" where
  "hash_key PNone = Inr KNone"
| "hash_key (PBool b) = Inr (KNum (if b then 1 else 0))"
| "hash_key (PInt i) = Inr (KNum (of_int i))"
| "hash_key (PFloat r) = Inr (KNum r)"
| "hash_key (PStr s) = Inr (KStr s)"
| "hash_key (PBytes b) = Inr (KBytes b)"
| "hash_key (PDict d) = Inl TypeError"

record node =
  n_name :: pyval
  n_lat :: "real option"
  n_lon :: "real option"
  n_last :: real

record origin_rec =
  o_lat :: "real option"
  o_lon :: "real option"
  o_set :: bool

text \<open>
  The module's globals: \<^verbatim>\<open>nodes\<close>, \<^verbatim>\<open>origin\<close>, \<^verbatim>\<open>status["last_packet"]\<close> and the
  queue \<^verbatim>\<open>q\<close> (items in the order they were put).
\<close>

record state =
  nodes :: "key \<Rightarrow> node option"
  origin :: origin_rec
  last_packet :: real
  q :: "(string \<times> pyval \<times> real) list"

definition init_state :: state where
  "init_state = \<lparr>nodes = Map.empty,
                 origin = \<lparr>o_lat = None, o_lon = None, o_set = False\<rparr>,
                 last_packet = 0, q = []\<rparr>"

text \<open>
  A call that mutates the globals returns the exception it raised, if any, with the state
  as the call left it: what was written before a raise stays written.
\<close>

type_synonym outcome = "exc option \<times> state"

definition set_origin_if_empty :: "builtins \<Rightarrow> pyval \<Rightarrow> pyval \<Rightarrow> state \<Rightarrow> outcome" where
  "set_origin_if_empty env lat lon s =
     (if lat \<noteq> PNone \<and> lon \<noteq> PNone \<and> \<not> o_set (origin s) then
        (case (py_float env lat, py_float env lon) of
           (Inl e, _) \<Rightarrow> (Some e, s)
         | (Inr a, Inl e) \<Rightarrow> (Some e, s)
         | (Inr a, Inr b) \<Rightarrow>
             (None, s\<lparr>origin := \<lparr>o_lat = Some a, o_lon = Some b, o_set = True\<rparr>\<rparr>))
      else (None, s))"

text \<open>
  In \<^verbatim>\<open>upsert_node\<close>, \<^verbatim>\<open>rec\<close> is the stored dictionary itself when the id is known,
  and a fresh one otherwise. \<open>write_rec\<close> makes a mutation of \<^verbatim>\<open>rec\<close> visible in
  \<^verbatim>\<open>nodes\<close> in the first case only; the final \<^verbatim>\<open>nodes[nid] = rec\<close> stores it in both.
\<close>

definition write_rec :: "bool \<Rightarrow> key \<Rightarrow> node \<Rightarrow> state \<Rightarrow> state" where
  "write_rec stored k r s = (if stored then s\<lparr>nodes := (nodes s)(k \<mapsto> r)\<rparr> else s)"

text \<open>
  The tail of \<^verbatim>\<open>upsert_node\<close> from the position test on; \<open>r\<close> is \<^verbatim>\<open>rec\<close> with its
  name and time already written.
\<close>

definition upsert_position ::
  "builtins \<Rightarrow> bool \<Rightarrow> key \<Rightarrow> node \<Rightarrow> pyval \<Rightarrow> pyval \<Rightarrow> state \<Rightarrow> outcome" where
  "upsert_position env stored k r lat lon s =
     (if lat \<noteq> PNone \<and> lon \<noteq> PNone then
        (case (py_float env lat, py_float env lon) of
           (Inl e, _) \<Rightarrow> (Some e, write_rec stored k r s)
         | (Inr a, Inl e) \<Rightarrow> (Some e, write_rec stored k r s)
         | (Inr a, Inr b) \<Rightarrow>
             (let r' = r\<lparr>n_lat := Some a, n_lon := Some b\<rparr>
              in case set_origin_if_empty env lat lon (write_rec stored k r' s) of
                   (Some e, s') \<Rightarrow> (Some e, s')
                 | (None, s') \<Rightarrow> (None, s'\<lparr>nodes := (nodes s')(k \<mapsto> r')\<rparr>)))
      else (None, s\<lparr>nodes := (nodes s)(k \<mapsto> r)\<rparr>))"

text \<open>
  \<^verbatim>\<open>upsert_node(nid, name, lat, lon, ts)\<close>; \<open>clk\<close> is what \<^verbatim>\<open>now()\<close> returns during
  the call. The reading stored in a fresh record's \<^verbatim>\<open>"last"\<close> is overwritten two
  lines later, before anything can read it.
\<close>

definition upsert_node ::
  "builtins \<Rightarrow> pyval \<Rightarrow> pyval \<Rightarrow> pyval \<Rightarrow> pyval \<Rightarrow> pyval \<Rightarrow> real \<Rightarrow> state \<Rightarrow> outcome" where
  "upsert_node env nid name lat lon ts clk s =
     (case hash_key nid of
        Inl e \<Rightarrow> (Some e, s)
      | Inr k \<Rightarrow>
          (let stored = (nodes s k \<noteq> None);
               rec0 = (case nodes s k of
                         Some r \<Rightarrow> r
                       | None \<Rightarrow> \<lparr>n_name = nid, n_lat = None, n_lon = None, n_last = clk\<rparr>);
               rec1 = (if truthy name then rec0\<lparr>n_name := name\<rparr> else rec0)
           in case py_float env (if truthy ts then ts else PFloat clk) of
                Inl e \<Rightarrow> (Some e, write_rec stored k rec1 s)
              | Inr t \<Rightarrow> upsert_position env stored k (rec1\<lparr>n_last := t\<rparr>) lat lon s))"

subsection \<open>Meshtastic handlers\<close>

fun as_dict :: "pyarg \<Rightarrow> pyval" where
  "as_dict (Val (PDict d)) = PDict d"
| "as_dict (Obj attrs) = PDict attrs"
| "as_dict a = PNone"

fun is_bytes :: "pyarg \<Rightarrow> bool" where
  "is_bytes (Val (PBytes b)) = True"
| "is_bytes a = False"

fun the_items :: "pyval \<Rightarrow> (string \<times> pyval) list" where
  "the_items (PDict d) = d"
| "the_items v = []"

text \<open>
  \<^verbatim>\<open>d.get("position") or (d.get("payload") or {}).get("position")\<close>: the right operand
  is evaluated, and may raise, only when the left one is falsy.
\<close>

definition position_of :: "(string \<times> pyval) list \<Rightarrow> exc + pyval" where
  "position_of d =
     (let p = dict_get d ''position''
      in if truthy p then Inr p
         else attr_get (py_or (dict_get d ''payload'') (PDict [])) ''position'')"

definition rx_nid :: "builtins \<Rightarrow> (string \<times> pyval) list \<Rightarrow> pyval" where
  "rx_nid env pkt =
     (let a = dict_get pkt ''fromId''
      in if truthy a then a
         else let b = py_str env (py_or (dict_get pkt ''from'') (PStr []))
              in if b \<noteq> [] then PStr b else PStr ''unknown'')"

definition rx_name :: "(string \<times> pyval) list \<Rightarrow> pyval" where
  "rx_name pkt =
     (case dict_get pkt ''from'' of
        PDict f \<Rightarrow> py_or (dict_get f ''longName'') (dict_get f ''shortName'')
      | _ \<Rightarrow> PNone)"

definition rx_pos :: "(string \<times> pyval) list \<Rightarrow> exc + pyval" where
  "rx_pos pkt =
     (let decoded = py_or (dict_get pkt ''decoded'') (PDict []);
          pos1 = (if is_dict decoded then position_of (the_items decoded) else Inr PNone)
      in case pos1 of
           Inl e \<Rightarrow> Inl e
         | Inr p \<Rightarrow> if truthy p then Inr p else position_of pkt)"

text \<open>The body of the \<^verbatim>\<open>try\<close> in \<^verbatim>\<open>on_rx\<close>.\<close>

definition on_rx_try :: "builtins \<Rightarrow> (string \<times> pyval) list \<Rightarrow> real \<Rightarrow> state \<Rightarrow> outcome" where
  "on_rx_try env pkt clk s =
     (let nid = rx_nid env pkt
      in case py_float env (py_or (dict_get pkt ''rxTime'') (PFloat clk)) of
           Inl e \<Rightarrow> (Some e, s)
         | Inr ts \<Rightarrow>
             (let name = rx_name pkt
              in case rx_pos pkt of
                   Inl e \<Rightarrow> (Some e, s)
                 | Inr pos \<Rightarrow>
                     (let has_fix = (is_dict pos
                                     \<and> ''latitude'' \<in> fst ` set (the_items pos)
                                     \<and> ''longitude'' \<in> fst ` set (the_items pos));
                          lat = (if has_fix then dict_get (the_items pos) ''latitude'' else PNone);
                          lon = (if has_fix then dict_get (the_items pos) ''longitude'' else PNone)
                      in case upsert_node env nid (py_or name nid) lat lon (PFloat ts) clk s of
                           (Some e, s') \<Rightarrow> (Some e, s')
                         | (None, s') \<Rightarrow> (None, s'\<lparr>q := q s' @ [(''rx'', nid, ts)]\<rparr>))))"

text \<open>
  \<^verbatim>\<open>on_rx\<close> returns nothing; the model returns the globals as the call leaves them.
  \<^verbatim>\<open>except Exception: return\<close> swallows whatever the body raised.
\<close>

definition on_rx :: "builtins \<Rightarrow> pyarg \<Rightarrow> real \<Rightarrow> state \<Rightarrow> state" where
  "on_rx env packet clk s =
     (let s1 = s\<lparr>last_packet := clk\<rparr>
      in if packet = Val PNone \<or> is_bytes packet then s1
         else let pkt = as_dict packet
              in if \<not> truthy pkt then s1
                 else snd (on_rx_try env (the_items pkt) clk s1))"

text \<open>The body of the \<^verbatim>\<open>try\<close> in \<^verbatim>\<open>on_node_updated\<close>.\<close>

definition node_name :: "(string \<times> pyval) list \<Rightarrow> string \<Rightarrow> exc + pyval" where
  "node_name nd nid =
     (let user = py_or (dict_get nd ''user'') (PDict [])
      in case attr_get user ''longName'' of
           Inl e \<Rightarrow> Inl e
         | Inr long \<Rightarrow> if truthy long then Inr long
                     else Inr (py_or (dict_get (the_items user) ''shortName'') (PStr nid)))"

definition on_node_updated_try ::
  "builtins \<Rightarrow> (string \<times> pyval) list \<Rightarrow> real \<Rightarrow> state \<Rightarrow> outcome" where
  "on_node_updated_try env nd clk s =
     (let nid = py_str env (py_or (dict_get nd ''num'') (py_or (dict_get nd ''id'') (PStr [])))
      in if nid = [] then (None, s)
         else case node_name nd nid of
                Inl e \<Rightarrow> (Some e, s)
              | Inr name \<Rightarrow>
                  (let pos = py_or (dict_get nd ''position'') (PDict [])
                   in if \<not> is_dict pos then (Some AttributeError, s)
                      else case upsert_node env (PStr nid) name
                                  (dict_get (the_items pos) ''latitude'')
                                  (dict_get (the_items pos) ''longitude'') (PFloat clk) clk s of
                             (Some e, s') \<Rightarrow> (Some e, s')
                           | (None, s') \<Rightarrow>
                               (None, s'\<lparr>q := q s' @ [(''node'', PStr nid, clk)]\<rparr>)))"

definition on_node_updated :: "builtins \<Rightarrow> pyarg \<Rightarrow> real \<Rightarrow> state \<Rightarrow> state" where
  "on_node_updated env node clk s =
     (let nd = as_dict node
      in if \<not> truthy nd then s
         else snd (on_node_updated_try env (the_items nd) clk s))"

subsection \<open>Sequences of updates\<close>

text \<open>
  One call of \<^verbatim>\<open>upsert_node\<close>: its five arguments and the clock reading during it. A
  caller that goes on after a call raised sees the globals as that call left them.
\<close>

type_synonym call = "pyval \<times> pyval \<times> pyval \<times> pyval \<times> pyval \<times> real"

fun step :: "builtins \<Rightarrow> call \<Rightarrow> state \<Rightarrow> state" where
  "step env (nid, name, lat, lon, ts, clk) s = snd (upsert_node env nid name lat lon ts clk s)"

definition run :: "builtins \<Rightarrow> call list \<Rightarrow> state \<Rightarrow> state" where
  "run env cs s = fold (step env) cs s"

fun carries_fix :: "call \<Rightarrow> bool" where
  "carries_fix (nid, name, lat, lon, ts, clk) = (lat \<noteq> PNone \<and> lon \<noteq> PNone)"

text \<open>The position stored for a key: \<open>(None, None)\<close> when the key is unknown.\<close>

definition stored_pos :: "state \<Rightarrow> key \<Rightarrow> real option \<times> real option" where
  "stored_pos s k = (case nodes s k of None \<Rightarrow> (None, None) | Some r \<Rightarrow> (n_lat r, n_lon r))"

definition pos_paired :: "state \<Rightarrow> bool" where
  "pos_paired s = (\<forall>k r. nodes s k = Some r \<longrightarrow> (n_lat r = None \<longleftrightarrow> n_lon r = None))"

text \<open>
  A well-typed update, as the ingestion interface describes it: optional name, optional
  coordinates, optional timestamp.
\<close>

fun opt_str :: "string option \<Rightarrow> pyval" where
  "opt_str None = PNone"
| "opt_str (Some n) = PStr n"

fun opt_float :: "real option \<Rightarrow> pyval" where
  "opt_float None = PNone"
| "opt_float (Some r) = PFloat r"

text \<open>
  A stand-in for the two builtins in the closed theorems below, whose inputs never reach
  either of them.
\<close>

definition no_text :: builtins where
  "no_text = \<lparr>float_of_text = (\<lambda>t. None), str_of = (\<lambda>v. ''?'')\<rparr>"

subsection \<open>Double arithmetic\<close>

text \<open>
  Where rounding or overflow decides what the program does, a float operation is the
  exact operation followed by \<open>rd\<close>, the rounding of IEEE 754 binary64: to the nearest
  number with a 53-bit significand, ties to the even significand, with the subnormal
  spacing \<open>2\<^sup>-\<^sup>1\<^sup>0\<^sup>7\<^sup>4\<close> below \<open>2\<^sup>-\<^sup>1\<^sup>0\<^sup>2\<^sup>2\<close>. \<open>rd\<close> itself has no largest exponent: a
  result whose rounded magnitude reaches \<open>2\<^sup>1\<^sup>0\<^sup>2\<^sup>4\<close> is \<^verbatim>\<open>inf\<close> in the program, which
  \<open>overflows\<close> tests. A literal such as \<^verbatim>\<open>1.15\<close> denotes \<open>rd 1.15\<close>.
\<close>

definition rne :: "real \<Rightarrow> int" where
  "rne y = (let f = \<lfloor>y\<rfloor>; r = y - of_int f
            in if r < 1 / 2 then f else if 1 / 2 < r then f + 1
               else if even f then f else f + 1)"

definition ulp_exp :: "real \<Rightarrow> int" where
  "ulp_exp x = max \<lfloor>log 2 \<bar>x\<bar>\<rfloor> (- 1022) - 52"

definition rd :: "real \<Rightarrow> real" where
  "rd x = (if x = 0 then 0
           else 2 powr of_int (ulp_exp x) * of_int (rne (x / 2 powr of_int (ulp_exp x))))"

definition overflows :: "real \<Rightarrow> bool" where
  "overflows r = (2 ^ 1024 \<le> \<bar>r\<bar>)"

text \<open>The unit roundoff and half the subnormal spacing, for the error bound of \<open>rd\<close>.\<close>

definition u53 :: real where
  "u53 = 1 / 2 ^ 53"

definition eta :: real where
  "eta = 1 / 2 ^ 1075"

subsection \<open>Camera: zoom at the cursor\<close>

datatype zoom_mode = Fit | Manual

text \<open>
  The view globals the wheel handler reads and writes, and the panel's scroll offset.
  The floats among them are finite doubles. Every float operation below is \<open>fl\<close> of the
  exact result: the rounded value, or \<open>None\<close> when the rounded magnitude reaches
  \<open>2\<^sup>1\<^sup>0\<^sup>2\<^sup>4\<close>. There the program goes on with \<^verbatim>\<open>inf\<close> and then \<^verbatim>\<open>nan\<close>, which are not
  followed: \<open>None\<close> is absorbing. Pixel coordinates are integers; the program converts them
  to doubles, exactly as long as they are below \<open>2\<^sup>5\<^sup>3\<close>.
\<close>

record view =
  zoom_mode :: zoom_mode
  zoom_k :: real
  pan_x_m :: real
  pan_y_m :: real
  side_scroll :: int

definition fl :: "real \<Rightarrow> real option" where
  "fl r = (if overflows (rd r) then None else Some (rd r))"

definition ZOOM_STEP :: real where
  "ZOOM_STEP = rd 1.15"

definition FONT_SMALL :: int where
  "FONT_SMALL = 17"

text \<open>\<^verbatim>\<open>int(x)\<close> on a float truncates towards zero.\<close>

definition py_int :: "real \<Rightarrow> int" where
  "py_int x = (if 0 \<le> x then \<lfloor>x\<rfloor> else \<lceil>x\<rceil>)"

text \<open>
  \<^verbatim>\<open>scale = fit_scale if zoom_mode=="fit" else max(0.0001, fit_scale*zoom_k)\<close>, the line
  that \<^verbatim>\<open>main\<close> runs once per frame and again inside the wheel handler.
\<close>

definition eff_scale :: "zoom_mode \<Rightarrow> real \<Rightarrow> real \<Rightarrow> real option" where
  "eff_scale m fit_scale k =
     (if m = Fit then Some fit_scale
      else Option.bind (fl (fit_scale * k)) (\<lambda>fk. Some (max (rd 0.0001) fk)))"

text \<open>
  \<^verbatim>\<open>to_screen\<close> is a closure over the plot centre \<open>(cx, cy)\<close>, the local \<^verbatim>\<open>scale\<close> and
  the pan globals; they are arguments here.
\<close>

definition to_screen :: "int \<Rightarrow> int \<Rightarrow> real \<Rightarrow> view \<Rightarrow> real \<Rightarrow> real \<Rightarrow> (int \<times> int) option" where
  "to_screen cx cy scale v xm ym =
     Option.bind (fl (xm - pan_x_m v)) (\<lambda>ax.
     Option.bind (fl (ax * scale)) (\<lambda>bx.
     Option.bind (fl (of_int cx + bx)) (\<lambda>sx.
     Option.bind (fl (ym - pan_y_m v)) (\<lambda>ay.
     Option.bind (fl (ay * scale)) (\<lambda>by.
     Option.bind (fl (of_int cy - by)) (\<lambda>sy.
     Some (py_int sx, py_int sy)))))))"

text \<open>
  The world point under a pixel: the first two lines of the handler's zoom branch, for a
  scale that is not zero.
\<close>

definition to_world :: "int \<Rightarrow> int \<Rightarrow> real \<Rightarrow> view \<Rightarrow> int \<Rightarrow> int \<Rightarrow> (real \<times> real) option" where
  "to_world cx cy scale v mx my =
     Option.bind (fl (of_int (mx - cx) / scale)) (\<lambda>qx.
     Option.bind (fl (qx + pan_x_m v)) (\<lambda>wx.
     Option.bind (fl (of_int (- (my - cy)) / scale)) (\<lambda>qy.
     Option.bind (fl (qy + pan_y_m v)) (\<lambda>wy.
     Some (wx, wy)))))"

text \<open>
  One \<^verbatim>\<open>WHEEL_EVT\<close>. \<open>in_side\<close> is \<^verbatim>\<open>side.collidepoint(mx, my)\<close>; \<open>scale\<close> is the local
  variable as the handler finds it, and the new value is returned with the view. The
  first division raises when \<open>scale\<close> is zero, before anything is written; the later
  ones divide by the new scale, which is at least \<^verbatim>\<open>0.0001\<close>. \<^verbatim>\<open>1.0/ZOOM_STEP\<close> is a
  double near \<open>0.87\<close>.
\<close>

definition wheel_evt ::
  "int \<Rightarrow> int \<Rightarrow> bool \<Rightarrow> real \<Rightarrow> real \<Rightarrow> int \<Rightarrow> int \<Rightarrow> int \<Rightarrow> view
     \<Rightarrow> (exc + view \<times> real) option" where
  "wheel_evt cx cy in_side fit_scale scale mx my dirn v =
     (if in_side then
        Some (Inr (v\<lparr>side_scroll := side_scroll v - dirn * ((FONT_SMALL + 6) * 4)\<rparr>, scale))
      else if scale = 0 then Some (Inl ZeroDivisionError)
      else
        Option.bind (fl (of_int (mx - cx) / scale)) (\<lambda>qx.
        Option.bind (fl (qx + pan_x_m v)) (\<lambda>wx.
        Option.bind (fl (of_int (- (my - cy)) / scale)) (\<lambda>qy.
        Option.bind (fl (qy + pan_y_m v)) (\<lambda>wy.
        Option.bind (fl (zoom_k v * (if dirn > 0 then ZOOM_STEP else rd (1 / ZOOM_STEP)))) (\<lambda>k'.
        Option.bind (eff_scale Manual fit_scale k') (\<lambda>scale'.
        Option.bind (fl (of_int (mx - cx) / scale')) (\<lambda>qx'.
        Option.bind (fl (wx - qx')) (\<lambda>px.
        Option.bind (fl (of_int (my - cy) / scale')) (\<lambda>qy'.
        Option.bind (fl (wy + qy')) (\<lambda>py.
        Some (Inr (v\<lparr>zoom_mode := Manual, zoom_k := k', pan_x_m := px, pan_y_m := py\<rparr>,
                   scale')))))))))))))"

subsection \<open>Links: nearest neighbours\<close>

type_synonym point = "real \<times> real"








subsection \<open>Links: minimum spanning tree\<close>

text \<open>
  A squared distance as the program holds it, an entry of \<^verbatim>\<open>dist2\<close> or the running
  \<^verbatim>\<open>best\<close>: a float, or \<^verbatim>\<open>inf\<close>.
\<close>

datatype d2val = Finite real | Infinity

fun d2_less :: "d2val \<Rightarrow> d2val \<Rightarrow> bool" where
  "d2_less (Finite a) (Finite b) = (a < b)"
| "d2_less (Finite a) Infinity = True"
| "d2_less Infinity b = False"

text \<open>
  \<^verbatim>\<open>_euclid2\<close> in doubles, on finite coordinates. A difference that overflows is an
  infinity of either sign and its square is \<^verbatim>\<open>inf\<close>; a square that overflows is
  \<^verbatim>\<open>inf\<close>; and \<^verbatim>\<open>inf\<close> plus a square is \<^verbatim>\<open>inf\<close>. No step can give NaN.
\<close>

definition euclid2_dbl :: "real \<Rightarrow> real \<Rightarrow> real \<Rightarrow> real \<Rightarrow> d2val" where
  "euclid2_dbl ax ay bx by =
     (let dx = rd (ax - bx); dy = rd (ay - by)
      in if overflows dx \<or> overflows dy then Infinity
         else let xx = rd (dx * dx); yy = rd (dy * dy)
              in if overflows xx \<or> overflows yy then Infinity
                 else let sm = rd (xx + yy)
                      in if overflows sm then Infinity else Finite sm)"

text \<open>The four lists \<^verbatim>\<open>build_mst_edges\<close> works on.\<close>

record mst_state =
  in_tree :: "bool list"
  dist2 :: "d2val list"
  parent :: "int list"
  edges :: "(int \<times> int) list"

text \<open>The lists as allocated, then the first loop, \<^verbatim>\<open>for j in range(1, n)\<close>.\<close>

definition init_step :: "point list \<Rightarrow> nat \<Rightarrow> mst_state \<Rightarrow> mst_state" where
  "init_step points j st =
     st\<lparr>dist2 := (dist2 st)[j := euclid2_dbl (fst (points ! 0)) (snd (points ! 0))
                                              (fst (points ! j)) (snd (points ! j))],
        parent := (parent st)[j := 0]\<rparr>"

definition mst_init :: "point list \<Rightarrow> mst_state" where
  "mst_init points =
     (let n = length points
      in fold (init_step points) [1..<n]
              \<lparr>in_tree = (replicate n False)[0 := True], dist2 = replicate n Infinity,
               parent = replicate n (- 1), edges = []\<rparr>)"

text \<open>
  The selection loop: \<^verbatim>\<open>k = -1; best = inf\<close>, then the first index outside the tree
  whose entry is strictly below every earlier candidate's. The pair is \<open>(k, best)\<close>. An
  entry that is \<^verbatim>\<open>inf\<close> is never below \<^verbatim>\<open>best\<close>.
\<close>

definition select_step :: "mst_state \<Rightarrow> nat \<Rightarrow> int \<times> d2val \<Rightarrow> int \<times> d2val" where
  "select_step st j kb =
     (if \<not> in_tree st ! j \<and> d2_less (dist2 st ! j) (snd kb) then (int j, dist2 st ! j)
      else kb)"

definition mst_select :: "mst_state \<Rightarrow> nat \<Rightarrow> int \<times> d2val" where
  "mst_select st n = fold (select_step st) [0..<n] (- 1, Infinity)"

text \<open>The relaxation loop after \<open>k\<close> joined the tree.\<close>

definition relax_step :: "point list \<Rightarrow> nat \<Rightarrow> nat \<Rightarrow> mst_state \<Rightarrow> mst_state" where
  "relax_step points k j st =
     (if \<not> in_tree st ! j then
        (let d2 = euclid2_dbl (fst (points ! k)) (snd (points ! k))
                              (fst (points ! j)) (snd (points ! j))
         in if d2_less d2 (dist2 st ! j)
            then st\<lparr>dist2 := (dist2 st)[j := d2], parent := (parent st)[j := int k]\<rparr>
            else st)
      else st)"

definition mst_relax :: "point list \<Rightarrow> nat \<Rightarrow> mst_state \<Rightarrow> mst_state" where
  "mst_relax points k st = fold (relax_step points k) [0..<length points] st"

text \<open>
  \<^verbatim>\<open>for _ in range(n-1)\<close>, with its \<^verbatim>\<open>break\<close> when nothing was selected; the first
  argument counts the rounds left.
\<close>

fun mst_loop :: "nat \<Rightarrow> point list \<Rightarrow> mst_state \<Rightarrow> mst_state" where
  "mst_loop 0 points st = st"
| "mst_loop (Suc m) points st =
     (let k = fst (mst_select st (length points))
      in if k = - 1 then st
         else mst_loop m points
                (mst_relax points (nat k)
                   (st\<lparr>in_tree := (in_tree st)[nat k := True],
                       edges := edges st @ [(k, parent st ! nat k)]\<rparr>)))"

definition build_mst_edges :: "point list \<Rightarrow> (int \<times> int) list" where
  "build_mst_edges points =
     (let n = length points
      in if n \<le> 1 then [] else edges (mst_loop (n - 1) points (mst_init points)))"

text \<open>
  No squared distance from point \<open>0\<close> to another point of the list is \<^verbatim>\<open>inf\<close>: the
  entries the first loop writes are all finite.
\<close>

definition root_finite :: "point list \<Rightarrow> bool" where
  "root_finite points =
     (\<forall>j. 1 \<le> j \<and> j < length points \<longrightarrow>
        euclid2_dbl (fst (points ! 0)) (snd (points ! 0))
                    (fst (points ! j)) (snd (points ! j)) \<noteq> Infinity)"

subsection \<open>Undirected graphs on indices\<close>

text \<open>An edge list read as an undirected graph: adjacency in either direction.\<close>

definition adj :: "(int \<times> int) list \<Rightarrow> (int \<times> int) set" where
  "adj es = set es \<union> (set es)\<inverse>"

text \<open>No loop at a vertex and no edge listed twice, in either direction.\<close>

definition simple_edges :: "(int \<times> int) list \<Rightarrow> bool" where
  "simple_edges es = (distinct es \<and> (\<forall>(a, b) \<in> set es. a \<noteq> b \<and> (b, a) \<notin> set es))"

definition connected_over :: "int set \<Rightarrow> (int \<times> int) list \<Rightarrow> bool" where
  "connected_over V es = (\<forall>u \<in> V. \<forall>v \<in> V. (u, v) \<in> (adj es)\<^sup>*)"

text \<open>
  A cycle: at least three distinct vertices, each adjacent to the next and the last to
  the first.
\<close>

definition is_cycle :: "(int \<times> int) list \<Rightarrow> int list \<Rightarrow> bool" where
  "is_cycle es p =
     (3 \<le> length p \<and> distinct p
      \<and> (\<forall>i < length p. (p ! i, p ! (Suc i mod length p)) \<in> adj es))"

definition spanning_tree :: "nat \<Rightarrow> (int \<times> int) list \<Rightarrow> bool" where
  "spanning_tree n es =
     ((\<forall>(a, b) \<in> set es. 0 \<le> a \<and> a < int n \<and> 0 \<le> b \<and> b < int n)
      \<and> simple_edges es
      \<and> connected_over {0..<int n} es
      \<and> (\<nexists>p. is_cycle es p))"

text \<open>
  A tree grown from vertex \<open>0\<close>: the vertex set \<open>V\<close> holds \<open>0\<close> and every endpoint, each
  vertex is reachable from \<open>0\<close>, and there is no cycle.
\<close>

definition tree_on :: "int set \<Rightarrow> (int \<times> int) list \<Rightarrow> bool" where
  "tree_on V es =
     (0 \<in> V \<and> (\<forall>(a, b) \<in> set es. a \<in> V \<and> b \<in> V) \<and> simple_edges es
      \<and> (\<forall>v \<in> V. (0, v) \<in> (adj es)\<^sup>*) \<and> (\<nexists>p. is_cycle es p))"

definition tree_verts :: "mst_state \<Rightarrow> int set" where
  "tree_verts st = {int j | j. j < length (in_tree st) \<and> in_tree st ! j}"

text \<open>What holds of the lists between two rounds of the main loop.\<close>

definition frontier_ok :: "nat \<Rightarrow> mst_state \<Rightarrow> bool" where
  "frontier_ok n st =
     (\<forall>j < n. \<not> in_tree st ! j \<longrightarrow>
        dist2 st ! j \<noteq> Infinity \<and> 0 \<le> parent st ! j \<and> nat (parent st ! j) < n
        \<and> in_tree st ! nat (parent st ! j))"

definition mst_inv :: "nat \<Rightarrow> mst_state \<Rightarrow> bool" where
  "mst_inv n st =
     (length (in_tree st) = n \<and> length (dist2 st) = n \<and> length (parent st) = n
      \<and> tree_on (tree_verts st) (edges st)
      \<and> length (edges st) + 1 = card (tree_verts st)
      \<and> frontier_ok n st)"

text \<open>What holds of the pair \<open>(k, best)\<close> during the selection loop.\<close>

definition pick_ok :: "nat \<Rightarrow> mst_state \<Rightarrow> int \<times> d2val \<Rightarrow> bool" where
  "pick_ok n st kb =
     ((fst kb = - 1 \<or> (0 \<le> fst kb \<and> nat (fst kb) < n \<and> \<not> in_tree st ! nat (fst kb)))
      \<and> (snd kb \<noteq> Infinity \<longrightarrow> fst kb \<noteq> - 1))"

section \<open>Properties\<close>

subsection \<open>Projector\<close>

text \<open>
  C3. Unprojecting the projection of \<open>(lat, lon)\<close> with the same origin gives
  \<open>(lat, lon)\<close> back whenever the cosine of the origin latitude is not zero. Over the
  reals the round trip is exact, which is the algebraic content of the tolerance the
  floats need.
\<close>

theorem projection_round_trip:
  assumes "cos (radians lat0) \<noteq> 0"
  shows "\<exists>x y. latlon_to_xy_m (Some lat) (Some lon) (Some lat0) (Some lon0) = Some (x, y)
           \<and> xy_m_to_latlon (Some x) (Some y) (Some lat0) (Some lon0) = Inr (lat, lon)"
proof -
  define x where "x = (lon - lon0) * cos (radians lat0) * R_earth"
  define y where "y = (lat - lat0) * R_earth"
  have fwd: "latlon_to_xy_m (Some lat) (Some lon) (Some lat0) (Some lon0) = Some (x, y)"
    by (simp add: latlon_to_xy_m_def x_def y_def)
  have den: "R_earth * cos (radians lat0) \<noteq> 0"
    using assms by (simp add: R_earth_def)
  have back_lat: "lat0 + y / R_earth = lat"
    by (simp add: y_def R_earth_def field_simps)
  have back_lon: "lon0 + x / (R_earth * cos (radians lat0)) = lon"
    using assms by (simp add: x_def R_earth_def field_simps)
  have "xy_m_to_latlon (Some x) (Some y) (Some lat0) (Some lon0) = Inr (lat, lon)"
    using den back_lat back_lon by (simp add: xy_m_to_latlon_def Let_def)
  with fwd show ?thesis by blast
qed

theorem projection_round_trip_witness:
  "cos (radians 0) \<noteq> 0
   \<and> (\<exists>x y. latlon_to_xy_m (Some 1) (Some 2) (Some 0) (Some 3) = Some (x, y)
           \<and> xy_m_to_latlon (Some x) (Some y) (Some 0) (Some 3) = Inr (1, 2))"
proof -
  have h: "cos (radians 0) \<noteq> 0" by (simp add: radians_def)
  show ?thesis using h projection_round_trip [OF h, of 1 2 3] by simp
qed

subsection \<open>Origin\<close>

lemma write_rec_origin: "origin (write_rec st k r s) = origin s"
  by (simp add: write_rec_def)

lemma set_origin_if_empty_frozen:
  "o_set (origin s) \<Longrightarrow> set_origin_if_empty env lat lon s = (None, s)"
  by (simp add: set_origin_if_empty_def)

lemma upsert_position_frozen:
  "o_set (origin s) \<Longrightarrow> origin (snd (upsert_position env st k r lat lon s)) = origin s"
  by (simp add: upsert_position_def set_origin_if_empty_frozen write_rec_origin Let_def
      split: sum.splits)

lemma upsert_node_frozen:
  "o_set (origin s) \<Longrightarrow> origin (snd (upsert_node env nid name lat lon ts clk s)) = origin s"
  by (simp add: upsert_node_def upsert_position_frozen write_rec_origin Let_def
      split: sum.splits)

lemma step_frozen: "o_set (origin s) \<Longrightarrow> origin (step env c s) = origin s"
  by (cases c) (simp add: upsert_node_frozen)

lemma run_frozen: "o_set (origin s) \<Longrightarrow> origin (run env cs s) = origin s"
  unfolding run_def
proof (induction cs arbitrary: s)
  case Nil
  then show ?case by simp
next
  case (Cons c cs)
  have "origin (step env c s) = origin s" using Cons.prems by (rule step_frozen)
  moreover from this Cons.prems have "o_set (origin (step env c s))" by simp
  ultimately show ?case using Cons.IH by simp
qed

lemma upsert_position_no_fix:
  "lat = PNone \<or> lon = PNone \<Longrightarrow>
   upsert_position env st k r lat lon s = (None, s\<lparr>nodes := (nodes s)(k \<mapsto> r)\<rparr>)"
  by (auto simp add: upsert_position_def)

lemma upsert_node_no_fix_origin:
  "lat = PNone \<or> lon = PNone \<Longrightarrow>
   origin (snd (upsert_node env nid name lat lon ts clk s)) = origin s"
  by (simp add: upsert_node_def upsert_position_no_fix write_rec_origin Let_def
      split: sum.splits)

lemma step_no_fix_origin: "\<not> carries_fix c \<Longrightarrow> origin (step env c s) = origin s"
  by (cases c) (simp add: upsert_node_no_fix_origin)

lemma run_no_fix_origin:
  "\<forall>c \<in> set cs. \<not> carries_fix c \<Longrightarrow> origin (run env cs s) = origin s"
  unfolding run_def
  by (induction cs arbitrary: s) (simp_all add: step_no_fix_origin)

lemma upsert_position_fix_origin:
  assumes "py_float env lat = Inr a" "py_float env lon = Inr b" "\<not> o_set (origin s)"
  shows "origin (snd (upsert_position env st k r lat lon s))
         = \<lparr>o_lat = Some a, o_lon = Some b, o_set = True\<rparr>"
proof -
  have "lat \<noteq> PNone" "lon \<noteq> PNone" using assms by auto
  then show ?thesis using assms
    by (simp add: upsert_position_def set_origin_if_empty_def write_rec_origin Let_def)
qed

lemma upsert_node_fix_origin:
  assumes "py_float env lat = Inr a" "py_float env lon = Inr b" "\<not> o_set (origin s)"
    and "fst (upsert_node env nid name lat lon ts clk s) = None"
  shows "origin (snd (upsert_node env nid name lat lon ts clk s))
         = \<lparr>o_lat = Some a, o_lon = Some b, o_set = True\<rparr>"
  using assms
  by (auto simp add: upsert_node_def upsert_position_fix_origin Let_def split: sum.splits)

lemma run_append: "run env (cs1 @ cs2) s = run env cs2 (run env cs1 s)"
  by (simp add: run_def)

lemma run_Cons: "run env (c # cs) s = run env cs (step env c s)"
  by (simp add: run_def)

text \<open>
  C2. Once the origin is set, no sequence of further calls changes its latitude, its
  longitude or its flag, whatever the calls carry and whether or not they raise. From
  an unset origin, calls without a fix leave it unset, and the first call that carries
  both coordinates and returns sets it to its own fix, where it stays.
\<close>

theorem origin_set_once:
  "(o_set (origin s) \<longrightarrow> origin (run env cs s) = origin s)
   \<and> (\<not> o_set (origin u) \<and> (\<forall>c \<in> set pre. \<not> carries_fix c)
        \<and> py_float env lat = Inr a \<and> py_float env lon = Inr b
        \<and> fst (upsert_node env nid name lat lon ts clk (run env pre u)) = None
      \<longrightarrow> origin (run env (pre @ (nid, name, lat, lon, ts, clk) # post) u)
            = \<lparr>o_lat = Some a, o_lon = Some b, o_set = True\<rparr>)"
proof (intro conjI impI)
  assume "o_set (origin s)"
  then show "origin (run env cs s) = origin s" by (rule run_frozen)
next
  assume h: "\<not> o_set (origin u) \<and> (\<forall>c \<in> set pre. \<not> carries_fix c)
        \<and> py_float env lat = Inr a \<and> py_float env lon = Inr b
        \<and> fst (upsert_node env nid name lat lon ts clk (run env pre u)) = None"
  let ?s1 = "run env pre u"
  let ?s2 = "step env (nid, name, lat, lon, ts, clk) ?s1"
  have "origin ?s1 = origin u" using h by (simp add: run_no_fix_origin)
  then have unset: "\<not> o_set (origin ?s1)" using h by simp
  have o2: "origin ?s2 = \<lparr>o_lat = Some a, o_lon = Some b, o_set = True\<rparr>"
    using h unset by (simp add: upsert_node_fix_origin)
  then have "o_set (origin ?s2)" by simp
  then have "origin (run env post ?s2) = origin ?s2" by (rule run_frozen)
  then show "origin (run env (pre @ (nid, name, lat, lon, ts, clk) # post) u)
            = \<lparr>o_lat = Some a, o_lon = Some b, o_set = True\<rparr>"
    using o2 by (simp add: run_append run_Cons)
qed

theorem origin_set_once_witness:
  "o_set (origin (init_state\<lparr>origin := \<lparr>o_lat = Some 1, o_lon = Some 2, o_set = True\<rparr>\<rparr>))
   \<and> origin (run no_text [(PStr ''A'', PNone, PFloat 3, PFloat 4, PNone, 9)]
         (init_state\<lparr>origin := \<lparr>o_lat = Some 1, o_lon = Some 2, o_set = True\<rparr>\<rparr>))
       = \<lparr>o_lat = Some 1, o_lon = Some 2, o_set = True\<rparr>
   \<and> \<not> o_set (origin init_state)
   \<and> \<not> carries_fix (PStr ''A'', PNone, PNone, PNone, PFloat 5, 6)
   \<and> origin (run no_text
         ([(PStr ''A'', PNone, PNone, PNone, PFloat 5, 6)]
          @ (PStr ''B'', PNone, PFloat 3, PFloat 4, PNone, 7)
          # [(PStr ''C'', PNone, PFloat 8, PFloat 9, PNone, 8)]) init_state)
       = \<lparr>o_lat = Some 3, o_lon = Some 4, o_set = True\<rparr>"
  using origin_set_once [where s = "init_state\<lparr>origin := \<lparr>o_lat = Some 1, o_lon = Some 2, o_set = True\<rparr>\<rparr>"
      and env = no_text and cs = "[(PStr ''A'', PNone, PFloat 3, PFloat 4, PNone, 9)]"
      and u = init_state and pre = "[(PStr ''A'', PNone, PNone, PNone, PFloat 5, 6)]"
      and lat = "PFloat 3" and lon = "PFloat 4" and a = 3 and b = 4
      and nid = "PStr ''B''" and name = PNone and ts = PNone and clk = 7
      and post = "[(PStr ''C'', PNone, PFloat 8, PFloat 9, PNone, 8)]"]
  by (simp add: init_state_def run_def upsert_node_def upsert_position_def write_rec_def
      set_origin_if_empty_def Let_def)

subsection \<open>Position pairs\<close>

lemma pos_paired_update:
  "pos_paired s \<Longrightarrow> (n_lat r = None \<longleftrightarrow> n_lon r = None) \<Longrightarrow>
   pos_paired (s\<lparr>nodes := (nodes s)(k \<mapsto> r)\<rparr>)"
  by (simp add: pos_paired_def)

lemma pos_paired_write_rec:
  "pos_paired s \<Longrightarrow> (n_lat r = None \<longleftrightarrow> n_lon r = None) \<Longrightarrow> pos_paired (write_rec st k r s)"
  by (simp add: write_rec_def pos_paired_update)

lemma pos_paired_set_origin:
  "pos_paired s \<Longrightarrow> pos_paired (snd (set_origin_if_empty env lat lon s))"
  by (simp add: set_origin_if_empty_def pos_paired_def split: sum.splits)

lemma set_origin_cases:
  "set_origin_if_empty env lat lon s = (x, s') \<Longrightarrow> pos_paired s \<Longrightarrow> pos_paired s'"
  using pos_paired_set_origin [of s env lat lon] by simp

lemma pos_paired_upsert_position:
  assumes "pos_paired s" "n_lat r = None \<longleftrightarrow> n_lon r = None"
  shows "pos_paired (snd (upsert_position env st k r lat lon s))"
proof (cases "lat \<noteq> PNone \<and> lon \<noteq> PNone")
  case False
  then show ?thesis using assms
    by (auto simp add: upsert_position_def pos_paired_update)
next
  case True
  show ?thesis
  proof (cases "py_float env lat")
    case (Inl e)
    then show ?thesis using True assms by (simp add: upsert_position_def pos_paired_write_rec)
  next
    case a: (Inr a)
    show ?thesis
    proof (cases "py_float env lon")
      case (Inl e)
      then show ?thesis using True a assms
        by (simp add: upsert_position_def pos_paired_write_rec)
    next
      case b: (Inr b)
      let ?r = "r\<lparr>n_lat := Some a, n_lon := Some b\<rparr>"
      obtain x s' where so: "set_origin_if_empty env lat lon (write_rec st k ?r s) = (x, s')"
        by (cases "set_origin_if_empty env lat lon (write_rec st k ?r s)")
      have "pos_paired (write_rec st k ?r s)" using assms by (simp add: pos_paired_write_rec)
      then have p: "pos_paired s'" using so set_origin_cases by blast
      then have "pos_paired (s'\<lparr>nodes := (nodes s')(k \<mapsto> ?r)\<rparr>)"
        by (simp add: pos_paired_update)
      then show ?thesis using True a b so p
        by (cases x) (simp_all add: upsert_position_def Let_def)
    qed
  qed
qed

lemma pos_paired_upsert_node:
  assumes "pos_paired s"
  shows "pos_paired (snd (upsert_node env nid name lat lon ts clk s))"
proof (cases "hash_key nid")
  case (Inl e)
  then show ?thesis using assms by (simp add: upsert_node_def)
next
  case (Inr k)
  define rec0 where "rec0 = (case nodes s k of Some r \<Rightarrow> r
      | None \<Rightarrow> \<lparr>n_name = nid, n_lat = None, n_lon = None, n_last = clk\<rparr>)"
  define rec1 where "rec1 = (if truthy name then rec0\<lparr>n_name := name\<rparr> else rec0)"
  have r0: "n_lat rec0 = None \<longleftrightarrow> n_lon rec0 = None"
    using assms by (auto simp add: rec0_def pos_paired_def split: option.splits)
  then have r1: "n_lat rec1 = None \<longleftrightarrow> n_lon rec1 = None"
    by (simp add: rec1_def)
  have eq: "upsert_node env nid name lat lon ts clk s =
      (case py_float env (if truthy ts then ts else PFloat clk) of
         Inl e \<Rightarrow> (Some e, write_rec (nodes s k \<noteq> None) k rec1 s)
       | Inr t \<Rightarrow> upsert_position env (nodes s k \<noteq> None) k (rec1\<lparr>n_last := t\<rparr>) lat lon s)"
    unfolding upsert_node_def Let_def rec0_def rec1_def using Inr by simp
  show ?thesis
  proof (cases "py_float env (if truthy ts then ts else PFloat clk)")
    case (Inl e)
    have "pos_paired (write_rec (nodes s k \<noteq> None) k rec1 s)"
      using assms r1 by (rule pos_paired_write_rec)
    then show ?thesis using Inl by (simp add: eq)
  next
    case t: (Inr t)
    have "pos_paired (snd (upsert_position env (nodes s k \<noteq> None) k (rec1\<lparr>n_last := t\<rparr>) lat lon s))"
      using assms r1 by (intro pos_paired_upsert_position) simp_all
    then show ?thesis using t by (simp add: eq)
  qed
qed

lemma pos_paired_run: "pos_paired s \<Longrightarrow> pos_paired (run env cs s)"
  unfolding run_def
proof (induction cs arbitrary: s)
  case Nil
  then show ?case by simp
next
  case (Cons c cs)
  have "pos_paired (step env c s)"
    using Cons.prems by (cases c) (simp add: pos_paired_upsert_node)
  then show ?case using Cons.IH by simp
qed

lemma stored_pos_upsert_no_fix:
  assumes "lat = PNone \<or> lon = PNone"
  shows "stored_pos (snd (upsert_node env nid name lat lon ts clk s)) k = stored_pos s k"
  using assms
  by (auto simp add: upsert_node_def upsert_position_no_fix write_rec_def stored_pos_def Let_def
      split: sum.splits option.splits)

text \<open>
  C10. From the empty store, every sequence of calls leaves each record with latitude
  and longitude both absent or both present. A call that lacks either coordinate leaves
  the position stored for every key as it was, and leaves the origin alone.
\<close>

theorem position_pair_atomic:
  "pos_paired (run env cs init_state)
   \<and> (lat = PNone \<or> lon = PNone \<longrightarrow>
        (\<forall>k. stored_pos (snd (upsert_node env nid name lat lon ts clk s)) k = stored_pos s k)
        \<and> origin (snd (upsert_node env nid name lat lon ts clk s)) = origin s)"
proof -
  have "pos_paired init_state" by (simp add: pos_paired_def init_state_def)
  then have "pos_paired (run env cs init_state)" by (rule pos_paired_run)
  then show ?thesis
    by (simp add: stored_pos_upsert_no_fix upsert_node_no_fix_origin)
qed

theorem position_pair_atomic_witness:
  "pos_paired (run no_text [(PStr ''A'', PNone, PFloat 1, PNone, PNone, 5)] init_state)
   \<and> (PFloat 3 = PNone \<or> PNone = PNone)
   \<and> (\<forall>k. stored_pos (snd (upsert_node no_text (PStr ''A'') PNone (PFloat 3) PNone PNone 7
                 (run no_text [(PStr ''A'', PNone, PFloat 1, PFloat 2, PNone, 5)] init_state))) k
            = stored_pos (run no_text [(PStr ''A'', PNone, PFloat 1, PFloat 2, PNone, 5)] init_state) k)
   \<and> origin (snd (upsert_node no_text (PStr ''A'') PNone (PFloat 3) PNone PNone 7
                 (run no_text [(PStr ''A'', PNone, PFloat 1, PFloat 2, PNone, 5)] init_state)))
       = origin (run no_text [(PStr ''A'', PNone, PFloat 1, PFloat 2, PNone, 5)] init_state)"
  using position_pair_atomic [where env = no_text
      and cs = "[(PStr ''A'', PNone, PFloat 1, PNone, PNone, 5)]"
      and lat = "PFloat 3" and lon = PNone and nid = "PStr ''A''" and name = PNone
      and ts = PNone and clk = 7
      and s = "run no_text [(PStr ''A'', PNone, PFloat 1, PFloat 2, PNone, 5)] init_state"]
  by simp

subsection \<open>Merge\<close>

lemma upsert_node_typed:
  "upsert_node env (PStr i) (opt_str nm) (opt_float la) (opt_float lo) (opt_float ts) clk s =
    (let r0 = (case nodes s (KStr i) of Some r \<Rightarrow> r
               | None \<Rightarrow> \<lparr>n_name = PStr i, n_lat = None, n_lon = None, n_last = clk\<rparr>);
         r1 = (case nm of None \<Rightarrow> r0 | Some n \<Rightarrow> if n = [] then r0 else r0\<lparr>n_name := PStr n\<rparr>);
         r2 = r1\<lparr>n_last := (case ts of None \<Rightarrow> clk | Some t \<Rightarrow> if t = 0 then clk else t)\<rparr>
     in case (la, lo) of
          (Some a, Some b) \<Rightarrow>
            (None, s\<lparr>nodes := (nodes s)(KStr i \<mapsto> r2\<lparr>n_lat := Some a, n_lon := Some b\<rparr>),
                     origin := (if o_set (origin s) then origin s
                                else \<lparr>o_lat = Some a, o_lon = Some b, o_set = True\<rparr>)\<rparr>)
        | _ \<Rightarrow> (None, s\<lparr>nodes := (nodes s)(KStr i \<mapsto> r2)\<rparr>))"
  by (cases nm; cases la; cases lo; cases ts)
     (auto simp add: upsert_node_def upsert_position_def set_origin_if_empty_def write_rec_def
       Let_def fun_upd_twist)

text \<open>
  C1. Applying a well-typed update to a stored record merges: the call returns; an
  absent name keeps the stored name and a non-empty one replaces it; the stored position
  is replaced when both coordinates are present and kept otherwise, so an update with
  only id and timestamp keeps it; no other record changes. The time of the record
  becomes the update's timestamp when that is present and not zero, and the clock
  reading otherwise.
\<close>

theorem upsert_node_merge:
  assumes "nodes s (KStr i) = Some r"
  shows "\<exists>s' r'. upsert_node env (PStr i) (opt_str nm) (opt_float la) (opt_float lo)
                    (opt_float ts) clk s = (None, s')
           \<and> nodes s' (KStr i) = Some r'
           \<and> (nm = None \<longrightarrow> n_name r' = n_name r)
           \<and> (\<forall>n. nm = Some n \<and> n \<noteq> [] \<longrightarrow> n_name r' = PStr n)
           \<and> (la = None \<or> lo = None \<longrightarrow> n_lat r' = n_lat r \<and> n_lon r' = n_lon r)
           \<and> (la \<noteq> None \<and> lo \<noteq> None \<longrightarrow> n_lat r' = la \<and> n_lon r' = lo)
           \<and> n_last r' = (case ts of None \<Rightarrow> clk | Some t \<Rightarrow> if t = 0 then clk else t)
           \<and> (\<forall>k. k \<noteq> KStr i \<longrightarrow> nodes s' k = nodes s k)"
  unfolding upsert_node_typed Let_def using assms
  by (cases nm; cases la; cases lo) auto

theorem upsert_node_merge_witness:
  "nodes (init_state\<lparr>nodes := [KStr ''A'' \<mapsto>
            \<lparr>n_name = PStr ''A'', n_lat = Some 1, n_lon = Some 2, n_last = 5\<rparr>]\<rparr>) (KStr ''A'')
     = Some \<lparr>n_name = PStr ''A'', n_lat = Some 1, n_lon = Some 2, n_last = 5\<rparr>
   \<and> (\<exists>s' r'. upsert_node no_text (PStr ''A'') (opt_str None) (opt_float None) (opt_float None)
                    (opt_float (Some 8)) 9
                    (init_state\<lparr>nodes := [KStr ''A'' \<mapsto>
                       \<lparr>n_name = PStr ''A'', n_lat = Some 1, n_lon = Some 2, n_last = 5\<rparr>]\<rparr>)
                  = (None, s')
           \<and> nodes s' (KStr ''A'') = Some r'
           \<and> n_name r' = PStr ''A'' \<and> n_lat r' = Some 1 \<and> n_lon r' = Some 2 \<and> n_last r' = 8)"
  using upsert_node_merge [where i = "''A''" and nm = None and la = None and lo = None
      and ts = "Some 8" and clk = 9 and env = no_text
      and r = "\<lparr>n_name = PStr ''A'', n_lat = Some 1, n_lon = Some 2, n_last = 5\<rparr>"
      and s = "init_state\<lparr>nodes := [KStr ''A'' \<mapsto>
                 \<lparr>n_name = PStr ''A'', n_lat = Some 1, n_lon = Some 2, n_last = 5\<rparr>]\<rparr>"]
  by auto

text \<open>
  The claim as written fails at the timestamp \<open>0.0\<close>: it is present, and the record's
  time becomes the clock reading \<open>9\<close>.
\<close>

theorem upsert_node_zero_timestamp:
  "map_option n_last
     (nodes (snd (upsert_node no_text (PStr ''A'') PNone PNone PNone (PFloat 0) 9
                   (init_state\<lparr>nodes := [KStr ''A'' \<mapsto>
                      \<lparr>n_name = PStr ''A'', n_lat = Some 1, n_lon = Some 2, n_last = 5\<rparr>]\<rparr>)))
            (KStr ''A''))
   = Some 9"
  by (simp add: upsert_node_def upsert_position_def init_state_def Let_def)

subsection \<open>Absent inputs of the projector\<close>

text \<open>
  C8. \<^verbatim>\<open>latlon_to_xy_m\<close> returns \<open>None\<close> whenever one of its four inputs is absent.
  \<^verbatim>\<open>xy_m_to_latlon\<close> has no such guard: with an absent input it raises.
\<close>

theorem projector_absent_input:
  "(None \<in> set [lat, lon, lat0, lon0] \<longrightarrow> latlon_to_xy_m lat lon lat0 lon0 = None)
   \<and> (None \<in> set [xm, ym, lat1, lon1] \<longrightarrow> isl (xy_m_to_latlon xm ym lat1 lon1))"
  by (auto simp add: latlon_to_xy_m_def xy_m_to_latlon_def Let_def)

theorem projector_absent_input_witness:
  "None \<in> set [Some 1, None, Some 0, Some 0] \<and> latlon_to_xy_m (Some 1) None (Some 0) (Some 0) = None
   \<and> None \<in> set [Some 1, Some 1, Some 0, None] \<and> isl (xy_m_to_latlon (Some 1) (Some 1) (Some 0) None)"
  using projector_absent_input [where lat = "Some 1" and lon = None and ?lat0.0 = "Some 0"
      and ?lon0.0 = "Some 0" and xm = "Some 1" and ym = "Some 1" and ?lat1.0 = "Some 0"
      and ?lon1.0 = None]
  by simp

text \<open>Unprojecting with an absent coordinate raises \<open>TypeError\<close>; it does not return \<open>None\<close>.\<close>

theorem xy_m_to_latlon_absent_raises:
  "xy_m_to_latlon None (Some 0) (Some 0) (Some 0) = Inl TypeError"
  by (simp add: xy_m_to_latlon_def)

subsection \<open>Handlers\<close>

lemma write_rec_dom:
  "st = (nodes s k \<noteq> None) \<Longrightarrow> dom (nodes (write_rec st k r s)) = dom (nodes s)"
  by (auto simp add: write_rec_def)

lemma write_rec_other: "k' \<noteq> k \<Longrightarrow> nodes (write_rec st k r s) k' = nodes s k'"
  by (simp add: write_rec_def)

lemma set_origin_if_empty_nodes: "nodes (snd (set_origin_if_empty env lat lon s)) = nodes s"
  by (simp add: set_origin_if_empty_def split: sum.splits)

lemma set_origin_if_empty_nodes':
  "set_origin_if_empty env lat lon s = (x, s') \<Longrightarrow> nodes s' = nodes s"
  using set_origin_if_empty_nodes [of env lat lon s] by simp

lemma set_origin_if_empty_returns:
  "py_float env lat = Inr a \<Longrightarrow> py_float env lon = Inr b \<Longrightarrow>
   fst (set_origin_if_empty env lat lon s) = None"
  by (simp add: set_origin_if_empty_def)

lemma upsert_position_other:
  "k' \<noteq> k \<Longrightarrow> nodes (snd (upsert_position env st k r lat lon s)) k' = nodes s k'"
proof -
  assume ne: "k' \<noteq> k"
  have *: "\<And>r' x s'. set_origin_if_empty env lat lon (write_rec st k r' s) = (x, s')
      \<Longrightarrow> nodes s' k' = nodes s k'"
    using ne by (simp add: set_origin_if_empty_nodes' write_rec_other)
  show ?thesis using ne
    by (auto simp add: upsert_position_def write_rec_other Let_def *
        split: sum.splits prod.splits option.splits)
qed

lemma upsert_node_unfold:
  assumes "hash_key nid = Inr k"
  obtains r1 where "upsert_node env nid name lat lon ts clk s =
      (case py_float env (if truthy ts then ts else PFloat clk) of
         Inl e \<Rightarrow> (Some e, write_rec (nodes s k \<noteq> None) k r1 s)
       | Inr t \<Rightarrow> upsert_position env (nodes s k \<noteq> None) k (r1\<lparr>n_last := t\<rparr>) lat lon s)"
proof -
  define rec0 where "rec0 = (case nodes s k of Some r \<Rightarrow> r
      | None \<Rightarrow> \<lparr>n_name = nid, n_lat = None, n_lon = None, n_last = clk\<rparr>)"
  define rec1 where "rec1 = (if truthy name then rec0\<lparr>n_name := name\<rparr> else rec0)"
  have "upsert_node env nid name lat lon ts clk s =
      (case py_float env (if truthy ts then ts else PFloat clk) of
         Inl e \<Rightarrow> (Some e, write_rec (nodes s k \<noteq> None) k rec1 s)
       | Inr t \<Rightarrow> upsert_position env (nodes s k \<noteq> None) k (rec1\<lparr>n_last := t\<rparr>) lat lon s)"
    unfolding upsert_node_def Let_def rec0_def rec1_def using assms by simp
  then show ?thesis using that by blast
qed

lemma upsert_node_other:
  assumes "hash_key nid = Inr k" "k' \<noteq> k"
  shows "nodes (snd (upsert_node env nid name lat lon ts clk s)) k' = nodes s k'"
proof -
  obtain r1 where eq: "upsert_node env nid name lat lon ts clk s =
      (case py_float env (if truthy ts then ts else PFloat clk) of
         Inl e \<Rightarrow> (Some e, write_rec (nodes s k \<noteq> None) k r1 s)
       | Inr t \<Rightarrow> upsert_position env (nodes s k \<noteq> None) k (r1\<lparr>n_last := t\<rparr>) lat lon s)"
    using assms(1) by (rule upsert_node_unfold)
  show ?thesis using assms(2)
    by (simp add: eq upsert_position_other write_rec_other split: sum.splits)
qed

lemma upsert_position_raise:
  assumes "fst (upsert_position env (nodes s k \<noteq> None) k r lat lon s) = Some e"
  shows "dom (nodes (snd (upsert_position env (nodes s k \<noteq> None) k r lat lon s))) = dom (nodes s)
         \<and> origin (snd (upsert_position env (nodes s k \<noteq> None) k r lat lon s)) = origin s"
proof (cases "lat \<noteq> PNone \<and> lon \<noteq> PNone")
  case False
  then show ?thesis using assms by (auto simp add: upsert_position_def)
next
  case True
  show ?thesis
  proof (cases "py_float env lat")
    case (Inl x)
    then show ?thesis using True
      by (simp add: upsert_position_def write_rec_dom write_rec_origin)
  next
    case a: (Inr a)
    show ?thesis
    proof (cases "py_float env lon")
      case (Inl x)
      then show ?thesis using True a
        by (simp add: upsert_position_def write_rec_dom write_rec_origin)
    next
      case b: (Inr b)
      let ?w = "write_rec (nodes s k \<noteq> None) k (r\<lparr>n_lat := Some a, n_lon := Some b\<rparr>) s"
      obtain s' where "set_origin_if_empty env lat lon ?w = (None, s')"
        using set_origin_if_empty_returns [OF a b, of ?w]
        by (cases "set_origin_if_empty env lat lon ?w") simp
      then have "fst (upsert_position env (nodes s k \<noteq> None) k r lat lon s) = None"
        using True a b by (simp add: upsert_position_def Let_def)
      then show ?thesis using assms by simp
    qed
  qed
qed

lemma upsert_node_raise:
  assumes "fst (upsert_node env nid name lat lon ts clk s) = Some e"
  shows "dom (nodes (snd (upsert_node env nid name lat lon ts clk s))) = dom (nodes s)
         \<and> origin (snd (upsert_node env nid name lat lon ts clk s)) = origin s"
proof (cases "hash_key nid")
  case (Inl x)
  then show ?thesis by (simp add: upsert_node_def)
next
  case k: (Inr k)
  obtain r1 where eq: "upsert_node env nid name lat lon ts clk s =
      (case py_float env (if truthy ts then ts else PFloat clk) of
         Inl e \<Rightarrow> (Some e, write_rec (nodes s k \<noteq> None) k r1 s)
       | Inr t \<Rightarrow> upsert_position env (nodes s k \<noteq> None) k (r1\<lparr>n_last := t\<rparr>) lat lon s)"
    using k by (rule upsert_node_unfold)
  show ?thesis
  proof (cases "py_float env (if truthy ts then ts else PFloat clk)")
    case (Inl x)
    then show ?thesis by (simp add: eq write_rec_dom write_rec_origin)
  next
    case (Inr t)
    then show ?thesis using assms upsert_position_raise [of env s k "r1\<lparr>n_last := t\<rparr>" lat lon e]
      by (simp add: eq)
  qed
qed

lemma on_rx_try_raise:
  assumes "fst (on_rx_try env pkt clk s) = Some e"
  shows "dom (nodes (snd (on_rx_try env pkt clk s))) = dom (nodes s)
         \<and> origin (snd (on_rx_try env pkt clk s)) = origin s"
proof (cases "py_float env (py_or (dict_get pkt ''rxTime'') (PFloat clk))")
  case (Inl x)
  then show ?thesis by (simp add: on_rx_try_def)
next
  case ts: (Inr ts)
  show ?thesis
  proof (cases "rx_pos pkt")
    case (Inl x)
    then show ?thesis using ts by (simp add: on_rx_try_def)
  next
    case (Inr pos)
    define lat where "lat = (if is_dict pos \<and> ''latitude'' \<in> fst ` set (the_items pos)
        \<and> ''longitude'' \<in> fst ` set (the_items pos)
        then dict_get (the_items pos) ''latitude'' else PNone)"
    define lon where "lon = (if is_dict pos \<and> ''latitude'' \<in> fst ` set (the_items pos)
        \<and> ''longitude'' \<in> fst ` set (the_items pos)
        then dict_get (the_items pos) ''longitude'' else PNone)"
    let ?u = "upsert_node env (rx_nid env pkt) (py_or (rx_name pkt) (rx_nid env pkt))
                lat lon (PFloat ts) clk s"
    have eq: "on_rx_try env pkt clk s =
        (case ?u of (Some e, s') \<Rightarrow> (Some e, s')
         | (None, s') \<Rightarrow> (None, s'\<lparr>q := q s' @ [(''rx'', rx_nid env pkt, ts)]\<rparr>))"
      unfolding on_rx_try_def Let_def lat_def lon_def using ts Inr by simp
    obtain x s' where u: "?u = (x, s')" by (cases ?u)
    show ?thesis
    proof (cases x)
      case None
      then show ?thesis using assms u by (simp add: eq)
    next
      case (Some e')
      then have "fst ?u = Some e'" using u by simp
      from upsert_node_raise [OF this] show ?thesis using u Some by (simp add: eq)
    qed
  qed
qed

lemma on_node_updated_try_raise:
  assumes "fst (on_node_updated_try env nd clk s) = Some e"
  shows "dom (nodes (snd (on_node_updated_try env nd clk s))) = dom (nodes s)
         \<and> origin (snd (on_node_updated_try env nd clk s)) = origin s"
proof -
  define nid where
    "nid = py_str env (py_or (dict_get nd ''num'') (py_or (dict_get nd ''id'') (PStr [])))"
  define pos where "pos = py_or (dict_get nd ''position'') (PDict [])"
  show ?thesis
  proof (cases "nid = [] \<or> isl (node_name nd nid) \<or> \<not> is_dict pos")
    case True
    then show ?thesis
      unfolding on_node_updated_try_def Let_def nid_def pos_def
      by (auto split: sum.splits)
  next
    case False
    then obtain name where nm: "node_name nd nid = Inr name" by (cases "node_name nd nid") auto
    let ?u = "upsert_node env (PStr nid) name (dict_get (the_items pos) ''latitude'')
                (dict_get (the_items pos) ''longitude'') (PFloat clk) clk s"
    have eq: "on_node_updated_try env nd clk s =
        (case ?u of (Some e, s') \<Rightarrow> (Some e, s')
         | (None, s') \<Rightarrow> (None, s'\<lparr>q := q s' @ [(''node'', PStr nid, clk)]\<rparr>))"
      using False nm unfolding on_node_updated_try_def Let_def nid_def pos_def by simp
    obtain x s' where u: "?u = (x, s')" by (cases ?u)
    show ?thesis
    proof (cases x)
      case None
      then show ?thesis using assms u by (simp add: eq)
    next
      case (Some e')
      then have "fst ?u = Some e'" using u by simp
      from upsert_node_raise [OF this] show ?thesis using u Some by (simp add: eq)
    qed
  qed
qed

lemma on_rx_try_other:
  assumes "hash_key (rx_nid env pkt) = Inr k" "k' \<noteq> k"
  shows "nodes (snd (on_rx_try env pkt clk s)) k' = nodes s k'"
proof (cases "py_float env (py_or (dict_get pkt ''rxTime'') (PFloat clk))")
  case (Inl x)
  then show ?thesis by (simp add: on_rx_try_def)
next
  case ts: (Inr ts)
  show ?thesis
  proof (cases "rx_pos pkt")
    case (Inl x)
    then show ?thesis using ts by (simp add: on_rx_try_def)
  next
    case (Inr pos)
    define lat where "lat = (if is_dict pos \<and> ''latitude'' \<in> fst ` set (the_items pos)
        \<and> ''longitude'' \<in> fst ` set (the_items pos)
        then dict_get (the_items pos) ''latitude'' else PNone)"
    define lon where "lon = (if is_dict pos \<and> ''latitude'' \<in> fst ` set (the_items pos)
        \<and> ''longitude'' \<in> fst ` set (the_items pos)
        then dict_get (the_items pos) ''longitude'' else PNone)"
    let ?u = "upsert_node env (rx_nid env pkt) (py_or (rx_name pkt) (rx_nid env pkt))
                lat lon (PFloat ts) clk s"
    have eq: "on_rx_try env pkt clk s =
        (case ?u of (Some e, s') \<Rightarrow> (Some e, s')
         | (None, s') \<Rightarrow> (None, s'\<lparr>q := q s' @ [(''rx'', rx_nid env pkt, ts)]\<rparr>))"
      unfolding on_rx_try_def Let_def lat_def lon_def using ts Inr by simp
    have "nodes (snd ?u) k' = nodes s k'" using assms by (rule upsert_node_other)
    then show ?thesis by (cases ?u) (auto simp add: eq split: option.splits)
  qed
qed

lemma rx_nid_unknown:
  "\<not> truthy (dict_get pkt ''fromId'') \<Longrightarrow> \<not> truthy (dict_get pkt ''from'') \<Longrightarrow>
   rx_nid env pkt = PStr ''unknown''"
  by (simp add: rx_nid_def py_or_def)

text \<open>
  C7. No handler passes an exception on: the \<^verbatim>\<open>except\<close> clause ends the call whatever
  the body raised. A node record without an id (\<^verbatim>\<open>num\<close> and \<^verbatim>\<open>id\<close> both missing or
  falsy) changes nothing at all. A packet without an id (\<^verbatim>\<open>fromId\<close> and \<^verbatim>\<open>from\<close> both
  missing or falsy) is not dropped: it is filed under the id \<open>unknown\<close>, and touches no
  other record. A record or packet whose fields make the body raise creates no node
  record and leaves the origin alone.
\<close>

theorem malformed_input:
  "(\<not> truthy (dict_get (the_items (as_dict node)) ''num'')
      \<and> \<not> truthy (dict_get (the_items (as_dict node)) ''id'')
     \<longrightarrow> on_node_updated env node clk s = s)
   \<and> (\<not> truthy (dict_get (the_items (as_dict packet)) ''fromId'')
      \<and> \<not> truthy (dict_get (the_items (as_dict packet)) ''from'')
     \<longrightarrow> (\<forall>k. k \<noteq> KStr ''unknown'' \<longrightarrow> nodes (on_rx env packet clk s) k = nodes s k))
   \<and> (fst (on_rx_try env pkt clk s) \<noteq> None
     \<longrightarrow> dom (nodes (snd (on_rx_try env pkt clk s))) = dom (nodes s)
         \<and> origin (snd (on_rx_try env pkt clk s)) = origin s)
   \<and> (fst (on_node_updated_try env nd clk s) \<noteq> None
     \<longrightarrow> dom (nodes (snd (on_node_updated_try env nd clk s))) = dom (nodes s)
         \<and> origin (snd (on_node_updated_try env nd clk s)) = origin s)"
proof (intro conjI impI allI)
  assume "\<not> truthy (dict_get (the_items (as_dict node)) ''num'')
      \<and> \<not> truthy (dict_get (the_items (as_dict node)) ''id'')"
  then show "on_node_updated env node clk s = s"
    by (simp add: on_node_updated_def on_node_updated_try_def py_or_def Let_def)
next
  fix k
  assume h: "\<not> truthy (dict_get (the_items (as_dict packet)) ''fromId'')
      \<and> \<not> truthy (dict_get (the_items (as_dict packet)) ''from'')"
    and k: "k \<noteq> KStr ''unknown''"
  have "hash_key (rx_nid env (the_items (as_dict packet))) = Inr (KStr ''unknown'')"
    using h by (simp add: rx_nid_unknown)
  then have "nodes (snd (on_rx_try env (the_items (as_dict packet)) clk
                (s\<lparr>last_packet := clk\<rparr>))) k = nodes (s\<lparr>last_packet := clk\<rparr>) k"
    using k by (rule on_rx_try_other)
  then show "nodes (on_rx env packet clk s) k = nodes s k"
    by (simp add: on_rx_def Let_def)
next
  assume "fst (on_rx_try env pkt clk s) \<noteq> None"
  then obtain e where "fst (on_rx_try env pkt clk s) = Some e" by auto
  from on_rx_try_raise [OF this]
  show "dom (nodes (snd (on_rx_try env pkt clk s))) = dom (nodes s)"
    and "origin (snd (on_rx_try env pkt clk s)) = origin s" by simp_all
next
  assume "fst (on_node_updated_try env nd clk s) \<noteq> None"
  then obtain e where "fst (on_node_updated_try env nd clk s) = Some e" by auto
  from on_node_updated_try_raise [OF this]
  show "dom (nodes (snd (on_node_updated_try env nd clk s))) = dom (nodes s)"
    and "origin (snd (on_node_updated_try env nd clk s)) = origin s" by simp_all
qed

theorem malformed_input_witness:
  "\<not> truthy (dict_get (the_items (as_dict (Val (PDict [(''user'', PStr ''x'')])))) ''num'')
   \<and> \<not> truthy (dict_get (the_items (as_dict (Val (PDict [(''user'', PStr ''x'')])))) ''id'')
   \<and> on_node_updated no_text (Val (PDict [(''user'', PStr ''x'')])) 7 init_state = init_state
   \<and> \<not> truthy (dict_get (the_items (as_dict (Val (PDict [(''rxTime'', PInt 5)])))) ''fromId'')
   \<and> \<not> truthy (dict_get (the_items (as_dict (Val (PDict [(''rxTime'', PInt 5)])))) ''from'')
   \<and> nodes (on_rx no_text (Val (PDict [(''rxTime'', PInt 5)])) 7 init_state) (KStr ''A'')
       = nodes init_state (KStr ''A'')
   \<and> fst (on_rx_try no_text [(''fromId'', PStr ''A''), (''rxTime'', PDict [(''t'', PInt 1)])]
             7 init_state) \<noteq> None
   \<and> dom (nodes (snd (on_rx_try no_text
             [(''fromId'', PStr ''A''), (''rxTime'', PDict [(''t'', PInt 1)])] 7 init_state)))
       = dom (nodes init_state)
   \<and> fst (on_node_updated_try no_text [(''id'', PStr ''A''), (''position'', PInt 3)]
             7 init_state) \<noteq> None
   \<and> dom (nodes (snd (on_node_updated_try no_text
             [(''id'', PStr ''A''), (''position'', PInt 3)] 7 init_state)))
       = dom (nodes init_state)"
proof -
  have a: "\<not> truthy (dict_get (the_items (as_dict (Val (PDict [(''user'', PStr ''x'')])))) ''num'')
      \<and> \<not> truthy (dict_get (the_items (as_dict (Val (PDict [(''user'', PStr ''x'')])))) ''id'')"
    by (simp add: dict_get_def)
  have b: "\<not> truthy (dict_get (the_items (as_dict (Val (PDict [(''rxTime'', PInt 5)])))) ''fromId'')
      \<and> \<not> truthy (dict_get (the_items (as_dict (Val (PDict [(''rxTime'', PInt 5)])))) ''from'')"
    by (simp add: dict_get_def)
  have c: "fst (on_rx_try no_text [(''fromId'', PStr ''A''), (''rxTime'', PDict [(''t'', PInt 1)])]
             7 init_state) \<noteq> None"
    by (simp add: on_rx_try_def dict_get_def py_or_def Let_def)
  have d: "fst (on_node_updated_try no_text [(''id'', PStr ''A''), (''position'', PInt 3)]
             7 init_state) \<noteq> None"
    by (simp add: on_node_updated_try_def node_name_def dict_get_def py_or_def Let_def)
  show ?thesis
    using a b c d
      malformed_input [where node = "Val (PDict [(''user'', PStr ''x'')])" and env = no_text
        and clk = 7 and s = init_state and packet = "Val (PDict [(''rxTime'', PInt 5)])"
        and pkt = "[(''fromId'', PStr ''A''), (''rxTime'', PDict [(''t'', PInt 1)])]"
        and nd = "[(''id'', PStr ''A''), (''position'', PInt 3)]"]
    by simp
qed

text \<open>
  The claim as written fails in \<^verbatim>\<open>on_rx\<close>: a packet with no id at all creates the
  record \<open>unknown\<close>.
\<close>

theorem on_rx_missing_id_creates_unknown:
  "nodes (on_rx no_text (Val (PDict [(''rxTime'', PInt 5)])) 7 init_state) (KStr ''unknown'')
   = Some \<lparr>n_name = PStr ''unknown'', n_lat = None, n_lon = None, n_last = 5\<rparr>"
  by (simp add: on_rx_def on_rx_try_def rx_nid_def rx_name_def rx_pos_def position_of_def
      dict_get_def py_or_def upsert_node_def upsert_position_def init_state_def Let_def)

text \<open>
  What a raise leaves behind in a record that exists already: \<^verbatim>\<open>rec\<close> is the stored
  dictionary, and its name and time are written before \<^verbatim>\<open>float(lat)\<close> raises. Here the
  latitude is a dictionary, and the time of \<open>A\<close> moves from \<open>5\<close> to \<open>10\<close>.
\<close>

lemma on_rx_raise_keeps_early_writes:
  "map_option n_last
     (nodes (on_rx no_text
               (Val (PDict [(''fromId'', PStr ''A''), (''rxTime'', PInt 10),
                            (''position'', PDict [(''latitude'', PDict [(''deg'', PInt 1)]),
                                                  (''longitude'', PInt 3)])]))
               11
               (init_state\<lparr>nodes := [KStr ''A'' \<mapsto>
                  \<lparr>n_name = PStr ''A'', n_lat = Some 1, n_lon = Some 2, n_last = 5\<rparr>]\<rparr>))
            (KStr ''A''))
   = Some 10"
  by (simp add: on_rx_def on_rx_try_def rx_nid_def rx_name_def rx_pos_def position_of_def
      dict_get_def py_or_def upsert_node_def upsert_position_def write_rec_def init_state_def
      Let_def)

subsection \<open>Nearest-neighbour links\<close>




















subsection \<open>Nearest-neighbour links with a degenerate configuration\<close>







subsection \<open>Growing a tree by a pendant edge\<close>

lemma adj_append: "adj (es @ [(k, p)]) = adj es \<union> {(k, p), (p, k)}"
  by (auto simp add: adj_def)

lemma adj_endpoints:
  "(\<forall>(a, b) \<in> set es. a \<in> V \<and> b \<in> V) \<Longrightarrow> (x, y) \<in> adj es \<Longrightarrow> x \<in> V \<and> y \<in> V"
  by (auto simp add: adj_def)

lemma pred_mod:
  assumes "3 \<le> (m :: nat)" "i < m"
  shows "(i + m - 1) mod m = (if i = 0 then m - 1 else i - 1)"
proof (cases "i = 0")
  case True
  have "m - 1 < m" using assms by arith
  then have "(m - 1) mod m = m - 1" by (rule mod_less)
  then show ?thesis using True by simp
next
  case False
  have e: "i + m - 1 = (i - 1) + m" using False by arith
  have "(i + m - 1) mod m = (i - 1) mod m" unfolding e by (rule mod_add_self2)
  moreover have "i - 1 < m" using assms by arith
  ultimately have "(i + m - 1) mod m = i - 1" by (simp only: mod_less)
  then show ?thesis using False by simp
qed

lemma succ_mod:
  assumes "3 \<le> (m :: nat)" "i < m"
  shows "Suc i mod m = (if Suc i = m then 0 else Suc i)"
proof (cases "Suc i = m")
  case True
  then show ?thesis by simp
next
  case False
  then have "Suc i < m" using assms by arith
  then have "Suc i mod m = Suc i" by (rule mod_less)
  then show ?thesis using False by (simp only: if_False)
qed

lemma cycle_index_clash:
  assumes "3 \<le> (m :: nat)" "i < m"
  shows "Suc i mod m \<noteq> (i + m - 1) mod m"
  unfolding pred_mod [OF assms] succ_mod [OF assms] using assms
  by (auto split: if_splits)

lemma cycle_pred:
  assumes "3 \<le> (m :: nat)" "i < m"
  shows "(i + m - 1) mod m < m \<and> Suc ((i + m - 1) mod m) mod m = i"
proof -
  let ?t = "(i + m - 1) mod m"
  have t: "?t = (if i = 0 then m - 1 else i - 1)" by (rule pred_mod [OF assms])
  have lt: "?t < m" using t assms by (auto split: if_splits)
  have "Suc ?t mod m = (if Suc ?t = m then 0 else Suc ?t)" by (rule succ_mod [OF assms(1) lt])
  also have "\<dots> = i" unfolding t using assms by (auto split: if_splits)
  finally show ?thesis using lt by simp
qed

lemma no_cycle_extend:
  assumes ends: "\<forall>(a, b) \<in> set es. a \<in> V \<and> b \<in> V"
    and nc: "\<nexists>c. is_cycle es c"
    and k: "k \<notin> V"
  shows "\<nexists>c. is_cycle (es @ [(k, p)]) c"
proof
  assume "\<exists>c. is_cycle (es @ [(k, p)]) c"
  then obtain c where c: "is_cycle (es @ [(k, p)]) c" ..
  define m where "m = length c"
  have m: "3 \<le> m" using c by (simp add: is_cycle_def m_def)
  then have m0: "0 < m" by linarith
  have d: "distinct c" using c by (simp add: is_cycle_def)
  have a: "(c ! i, c ! (Suc i mod m)) \<in> adj es \<union> {(k, p), (p, k)}" if "i < m" for i
  proof -
    have "\<forall>i < length c. (c ! i, c ! (Suc i mod length c)) \<in> adj (es @ [(k, p)])"
      using c unfolding is_cycle_def by blast
    then show ?thesis using that unfolding m_def adj_append by blast
  qed
  have notk: "x \<noteq> k \<and> y \<noteq> k" if "(x, y) \<in> adj es" for x y
    using adj_endpoints [OF ends that] k by blast
  have nb1: "x = p" if "(k, x) \<in> adj es \<union> {(k, p), (p, k)}" for x
    using that notk [of k x] by blast
  have nb2: "x = p" if "(x, k) \<in> adj es \<union> {(k, p), (p, k)}" for x
    using that notk [of x k] by blast
  show False
  proof (cases "k \<in> set c")
    case True
    then obtain i where i: "i < m" "c ! i = k"
      unfolding m_def in_set_conv_nth by blast
    define s where "s = Suc i mod m"
    define t where "t = (i + m - 1) mod m"
    have t: "t < m" "Suc t mod m = i" using cycle_pred [OF m i(1)] by (simp_all add: t_def)
    have s: "s < m" unfolding s_def using m0 by (rule mod_less_divisor)
    have "(k, c ! s) \<in> adj es \<union> {(k, p), (p, k)}" using a [OF i(1)] i(2) s_def by simp
    then have cs: "c ! s = p" by (rule nb1)
    have "(c ! t, k) \<in> adj es \<union> {(k, p), (p, k)}" using a [OF t(1)] t(2) i(2) by simp
    then have ct: "c ! t = p" by (rule nb2)
    have "s = t"
      using d s t(1) cs ct nth_eq_iff_index_eq [of c s t] unfolding m_def by simp
    then show False using cycle_index_clash [OF m i(1)] by (simp add: s_def t_def)
  next
    case False
    have "(c ! i, c ! (Suc i mod m)) \<in> adj es" if i: "i < m" for i
    proof -
      have "Suc i mod m < m" using m0 by (rule mod_less_divisor)
      then have "c ! (Suc i mod m) \<in> set c" unfolding m_def by (rule nth_mem)
      moreover have "c ! i \<in> set c" using i unfolding m_def by (rule nth_mem)
      ultimately have "c ! i \<noteq> k" "c ! (Suc i mod m) \<noteq> k" using False by blast+
      then show ?thesis using a [OF i] by blast
    qed
    then have "is_cycle es c" using m d unfolding is_cycle_def m_def by blast
    then show False using nc by blast
  qed
qed

lemma tree_on_extend:
  assumes t: "tree_on V es" and k: "k \<notin> V" and p: "p \<in> V"
  shows "tree_on (insert k V) (es @ [(k, p)])"
proof -
  have ends: "\<forall>(a, b) \<in> set es. a \<in> V \<and> b \<in> V" and z: "0 \<in> V"
    and simp_es: "simple_edges es" and reach: "\<forall>v \<in> V. (0, v) \<in> (adj es)\<^sup>*"
    and nc: "\<nexists>c. is_cycle es c"
    using t by (simp_all add: tree_on_def)
  have fresh: "(k, p) \<notin> set es" "(p, k) \<notin> set es" "k \<noteq> p"
    using ends k p by auto
  have "simple_edges (es @ [(k, p)])"
    using simp_es fresh ends k by (auto simp add: simple_edges_def)
  moreover have "\<forall>(a, b) \<in> set (es @ [(k, p)]). a \<in> insert k V \<and> b \<in> insert k V"
    using ends p by auto
  moreover have "\<forall>v \<in> insert k V. (0, v) \<in> (adj (es @ [(k, p)]))\<^sup>*"
  proof
    fix v
    assume v: "v \<in> insert k V"
    have mono: "(adj es)\<^sup>* \<subseteq> (adj (es @ [(k, p)]))\<^sup>*"
      by (rule rtrancl_mono) (auto simp add: adj_append)
    show "(0, v) \<in> (adj (es @ [(k, p)]))\<^sup>*"
    proof (cases "v = k")
      case True
      have "(0, p) \<in> (adj (es @ [(k, p)]))\<^sup>*" using reach p mono by blast
      moreover have "(p, k) \<in> adj (es @ [(k, p)])" by (simp add: adj_append)
      ultimately show ?thesis using True by (simp add: rtrancl_into_rtrancl)
    next
      case False
      then show ?thesis using v reach mono by blast
    qed
  qed
  moreover have "\<nexists>c. is_cycle (es @ [(k, p)]) c"
    using ends nc k by (rule no_cycle_extend)
  ultimately show ?thesis using z by (simp add: tree_on_def)
qed

lemma no_cycle_empty: "\<not> is_cycle [] c"
proof
  assume "is_cycle [] c"
  then have "3 \<le> length c" "\<forall>i < length c. (c ! i, c ! (Suc i mod length c)) \<in> adj []"
    by (simp_all add: is_cycle_def)
  moreover from this have "0 < length c" by linarith
  ultimately have "(c ! 0, c ! (Suc 0 mod length c)) \<in> adj []" by blast
  then show False by (simp add: adj_def)
qed

lemma tree_on_single: "tree_on {0} []"
  by (simp add: tree_on_def simple_edges_def no_cycle_empty)

subsection \<open>Rounding\<close>

lemma rne_err: "\<bar>of_int (rne y) - y\<bar> \<le> 1 / 2"
proof -
  have "of_int \<lfloor>y\<rfloor> \<le> y" "y < of_int \<lfloor>y\<rfloor> + 1" by linarith+
  then show ?thesis by (auto simp add: rne_def Let_def)
qed

lemma rne_eqI: "\<bar>y - of_int n\<bar> < 1 / 2 \<Longrightarrow> rne y = n"
proof -
  assume a: "\<bar>y - of_int n\<bar> < 1 / 2"
  show ?thesis
  proof (cases "of_int n \<le> y")
    case True
    then have "\<lfloor>y\<rfloor> = n" using a by (intro floor_unique) auto
    then show ?thesis using a True by (simp add: rne_def Let_def)
  next
    case False
    then have f: "\<lfloor>y\<rfloor> = n - 1" using a by (intro floor_unique) auto
    then have "1 / 2 < y - of_int \<lfloor>y\<rfloor>" using a False by simp
    then show ?thesis using f by (simp add: rne_def Let_def)
  qed
qed

lemma rd_half_ulp: "x \<noteq> 0 \<Longrightarrow> \<bar>rd x - x\<bar> \<le> 2 powr of_int (ulp_exp x) / 2"
proof -
  assume x: "x \<noteq> 0"
  define U where "U = (2::real) powr of_int (ulp_exp x)"
  have U: "0 < U" by (simp add: U_def)
  have "rd x - x = U * (of_int (rne (x / U)) - x / U)"
    using x U by (simp add: rd_def U_def algebra_simps)
  then have "\<bar>rd x - x\<bar> = U * \<bar>of_int (rne (x / U)) - x / U\<bar>"
    using U by (simp add: abs_mult)
  also have "\<dots> \<le> U * (1 / 2)"
    using U rne_err [of "x / U"] by (intro mult_left_mono) simp_all
  finally show ?thesis by (simp add: U_def)
qed

lemma half_ulp_bound:
  assumes "x \<noteq> 0"
  shows "2 powr of_int (ulp_exp x) / 2 \<le> u53 * \<bar>x\<bar> + eta"
proof (cases "\<lfloor>log 2 \<bar>x\<bar>\<rfloor> \<ge> - 1022")
  case True
  then have e: "ulp_exp x = \<lfloor>log 2 \<bar>x\<bar>\<rfloor> - 52" by (simp add: ulp_exp_def)
  have "2 powr of_int \<lfloor>log 2 \<bar>x\<bar>\<rfloor> \<le> 2 powr (log 2 \<bar>x\<bar>)"
    by (intro powr_mono) simp_all
  also have "\<dots> = \<bar>x\<bar>" using assms by simp
  finally have le: "2 powr of_int \<lfloor>log 2 \<bar>x\<bar>\<rfloor> \<le> \<bar>x\<bar>" .
  have "(2::real) powr of_int (ulp_exp x) / 2
        = 2 powr of_int \<lfloor>log 2 \<bar>x\<bar>\<rfloor> * (2 powr (- 52) / 2)"
    by (simp add: e powr_diff powr_minus field_simps)
  also have "(2::real) powr (- 52) / 2 = u53"
    by (simp add: powr_minus u53_def powr_numeral field_simps)
  finally have "(2::real) powr of_int (ulp_exp x) / 2
        = 2 powr of_int \<lfloor>log 2 \<bar>x\<bar>\<rfloor> * u53" .
  also have "\<dots> \<le> \<bar>x\<bar> * u53" using le by (intro mult_right_mono) (simp_all add: u53_def)
  finally show ?thesis by (simp add: eta_def mult.commute)
next
  case False
  then have e: "ulp_exp x = - 1074" by (simp add: ulp_exp_def)
  have "(2::real) powr of_int (- 1074) / 2 = eta"
    by (simp add: powr_minus eta_def powr_numeral field_simps)
  then show ?thesis using e by (simp add: u53_def)
qed

lemma rd_err: "\<bar>rd x - x\<bar> \<le> u53 * \<bar>x\<bar> + eta"
proof (cases "x = 0")
  case True
  then show ?thesis by (simp add: rd_def eta_def)
next
  case False
  then show ?thesis using rd_half_ulp [OF False] half_ulp_bound [OF False] by linarith
qed

lemma floor_log2:
  assumes "0 < a" "2 powr of_int e \<le> a" "a < 2 powr of_int (e + 1)"
  shows "\<lfloor>log 2 a\<rfloor> = e"
proof (rule floor_unique)
  show "of_int e \<le> log 2 a" using assms by (simp add: le_log_iff)
  have "log 2 a < of_int (e + 1)" using assms by (simp add: log_less_iff)
  then show "log 2 a < of_int e + 1" by simp
qed

lemma rd_eqI:
  assumes "x \<noteq> 0" "- 1022 \<le> e" "2 powr of_int e \<le> \<bar>x\<bar>" "\<bar>x\<bar> < 2 powr of_int (e + 1)"
    and "\<bar>x / 2 powr of_int (e - 52) - of_int n\<bar> < 1 / 2"
  shows "rd x = 2 powr of_int (e - 52) * of_int n"
proof -
  have "\<lfloor>log 2 \<bar>x\<bar>\<rfloor> = e" using assms(1,3,4) by (intro floor_log2) simp_all
  then have "ulp_exp x = e - 52" using assms(2) by (simp add: ulp_exp_def)
  then show ?thesis using assms(1,5) by (simp add: rd_def rne_eqI)
qed

lemma two_powr_neg: "(2::real) powr of_int (- int k) = 1 / 2 ^ k"
  by (simp add: powr_minus powr_realpow field_simps)

lemma two_powr_nat: "(2::real) powr of_int (int k) = 2 ^ k"
  by (simp add: powr_realpow)

text \<open>
  Evaluating \<open>rd\<close> at a number of the binade \<open>[2\<^sup>5\<^sup>2\<^sup>-\<^sup>b, 2\<^sup>5\<^sup>3\<^sup>-\<^sup>b)\<close>, whose spacing is \<open>2\<^sup>-\<^sup>b\<close>,
  and at one of the binade \<open>[2\<^sup>5\<^sup>2\<^sup>+\<^sup>a, 2\<^sup>5\<^sup>3\<^sup>+\<^sup>a)\<close>, whose spacing is \<open>2\<^sup>a\<close>.
\<close>

lemma rd_eqI_neg:
  assumes "b \<le> 1074" "2 ^ 52 / 2 ^ b \<le> \<bar>x\<bar>" "\<bar>x\<bar> < 2 ^ 53 / 2 ^ b"
    and "\<bar>x * 2 ^ b - of_int n\<bar> < 1 / 2"
  shows "rd x = of_int n / 2 ^ b"
proof -
  define e where "e = 52 - int b"
  have pb: "(2::real) powr of_int (int b) = 2 ^ b" by (rule two_powr_nat)
  have "(2::real) powr of_int e = 2 powr 52 / 2 powr of_int (int b)"
    unfolding e_def by (simp add: powr_diff)
  also have "(2::real) powr 52 = 2 ^ 52" by (simp add: powr_numeral)
  finally have p1: "(2::real) powr of_int e = 2 ^ 52 / 2 ^ b" unfolding pb .
  have "(2::real) powr of_int (e + 1) = 2 powr 53 / 2 powr of_int (int b)"
    unfolding e_def by (simp add: powr_diff)
  also have "(2::real) powr 53 = 2 ^ 53" by (simp add: powr_numeral)
  finally have p2: "(2::real) powr of_int (e + 1) = 2 ^ 53 / 2 ^ b" unfolding pb .
  have "e - 52 = - int b" by (simp add: e_def)
  then have p3: "(2::real) powr of_int (e - 52) = 1 / 2 ^ b"
    using two_powr_neg [of b] by simp
  have "0 < (2::real) ^ 52 / 2 ^ b" by simp
  then have "0 < \<bar>x\<bar>" using assms(2) by linarith
  then have x: "x \<noteq> 0" by simp
  have e: "- 1022 \<le> e" using assms(1) by (simp add: e_def)
  have a3: "2 powr of_int e \<le> \<bar>x\<bar>" unfolding p1 by (rule assms(2))
  have a4: "\<bar>x\<bar> < 2 powr of_int (e + 1)" unfolding p2 by (rule assms(3))
  have a5: "\<bar>x / 2 powr of_int (e - 52) - of_int n\<bar> < 1 / 2"
    unfolding p3 using assms(4) by simp
  have "rd x = 2 powr of_int (e - 52) * of_int n"
    using x e a3 a4 a5 by (rule rd_eqI)
  then show ?thesis unfolding p3 by simp
qed

lemma rd_eqI_pos:
  assumes "2 ^ 52 * 2 ^ a \<le> \<bar>x\<bar>" "\<bar>x\<bar> < 2 ^ 53 * 2 ^ a"
    and "\<bar>x / 2 ^ a - of_int n\<bar> < 1 / 2"
  shows "rd x = of_int n * 2 ^ a"
proof -
  define e where "e = 52 + int a"
  have pa: "(2::real) powr of_int (int a) = 2 ^ a" by (rule two_powr_nat)
  have "(2::real) powr of_int e = 2 powr 52 * 2 powr of_int (int a)"
    unfolding e_def by (simp add: powr_add)
  also have "(2::real) powr 52 = 2 ^ 52" by (simp add: powr_numeral)
  finally have p1: "(2::real) powr of_int e = 2 ^ 52 * 2 ^ a" unfolding pa .
  have "(2::real) powr of_int (e + 1) = 2 powr 53 * 2 powr of_int (int a)"
    unfolding e_def by (simp add: powr_add)
  also have "(2::real) powr 53 = 2 ^ 53" by (simp add: powr_numeral)
  finally have p2: "(2::real) powr of_int (e + 1) = 2 ^ 53 * 2 ^ a" unfolding pa .
  have "e - 52 = int a" by (simp add: e_def)
  then have p3: "(2::real) powr of_int (e - 52) = 2 ^ a" using pa by simp
  have "0 < (2::real) ^ 52 * 2 ^ a" by simp
  then have "0 < \<bar>x\<bar>" using assms(1) by linarith
  then have x: "x \<noteq> 0" by simp
  have e: "- 1022 \<le> e" by (simp add: e_def)
  have a3: "2 powr of_int e \<le> \<bar>x\<bar>" unfolding p1 by (rule assms(1))
  have a4: "\<bar>x\<bar> < 2 powr of_int (e + 1)" unfolding p2 by (rule assms(2))
  have a5: "\<bar>x / 2 powr of_int (e - 52) - of_int n\<bar> < 1 / 2"
    unfolding p3 using assms(3) by simp
  have "rd x = 2 powr of_int (e - 52) * of_int n"
    using x e a3 a4 a5 by (rule rd_eqI)
  then show ?thesis unfolding p3 by (simp add: mult.commute)
qed

lemma rd_zero: "rd 0 = 0"
  by (simp add: rd_def)


subsection \<open>Minimum spanning tree\<close>

lemma d2_less_Infinity: "d2_less x Infinity \<longleftrightarrow> x \<noteq> Infinity"
  by (cases x) simp_all

lemma mst_init_fold:
  assumes "\<forall>j \<in> set js. j < n" "length (dist2 st) = n" "length (parent st) = n"
    and "\<forall>j \<in> S. dist2 st ! j \<noteq> Infinity \<and> parent st ! j = 0"
    and "\<forall>j \<in> set js. euclid2_dbl (fst (points ! 0)) (snd (points ! 0))
                           (fst (points ! j)) (snd (points ! j)) \<noteq> Infinity"
  shows "in_tree (fold (init_step points) js st) = in_tree st
       \<and> edges (fold (init_step points) js st) = edges st
       \<and> length (dist2 (fold (init_step points) js st)) = n
       \<and> length (parent (fold (init_step points) js st)) = n
       \<and> (\<forall>j \<in> S \<union> set js.
             dist2 (fold (init_step points) js st) ! j \<noteq> Infinity
           \<and> parent (fold (init_step points) js st) ! j = 0)"
  using assms
proof (induction js arbitrary: st S)
  case Nil
  then show ?case by simp
next
  case (Cons j js)
  let ?st = "init_step points j st"
  have j: "j < n" using Cons.prems(1) by simp
  have 1: "\<forall>j \<in> set js. j < n" using Cons.prems(1) by simp
  have 2: "length (dist2 ?st) = n" "length (parent ?st) = n"
    using Cons.prems by (simp_all add: init_step_def)
  have 3: "\<forall>i \<in> insert j S. dist2 ?st ! i \<noteq> Infinity \<and> parent ?st ! i = 0"
    using Cons.prems j by (auto simp add: init_step_def nth_list_update)
  have 4: "in_tree ?st = in_tree st" "edges ?st = edges st" by (simp_all add: init_step_def)
  have 5: "\<forall>j \<in> set js. euclid2_dbl (fst (points ! 0)) (snd (points ! 0))
                           (fst (points ! j)) (snd (points ! j)) \<noteq> Infinity"
    using Cons.prems(5) by simp
  from Cons.IH [OF 1 2 3 5] 4 show ?case by simp
qed

lemma select_step_ok: "j < n \<Longrightarrow> pick_ok n st kb \<Longrightarrow> pick_ok n st (select_step st j kb)"
  by (simp add: pick_ok_def select_step_def)

lemma select_step_found:
  "pick_ok n st kb \<Longrightarrow> fst kb \<noteq> - 1 \<or> (\<not> in_tree st ! j \<and> dist2 st ! j \<noteq> Infinity)
   \<Longrightarrow> fst (select_step st j kb) \<noteq> - 1"
  by (cases "snd kb") (auto simp add: pick_ok_def select_step_def d2_less_Infinity)

lemma mst_select_fold:
  assumes "\<forall>j \<in> set js. j < n" "pick_ok n st kb"
  shows "pick_ok n st (fold (select_step st) js kb)
       \<and> ((fst kb \<noteq> - 1 \<or> (\<exists>j \<in> set js. \<not> in_tree st ! j \<and> dist2 st ! j \<noteq> Infinity))
            \<longrightarrow> fst (fold (select_step st) js kb) \<noteq> - 1)"
  using assms
proof (induction js arbitrary: kb)
  case Nil
  then show ?case by simp
next
  case (Cons j js)
  have j: "j < n" using Cons.prems(1) by simp
  have 1: "\<forall>j \<in> set js. j < n" using Cons.prems(1) by simp
  have 2: "pick_ok n st (select_step st j kb)" using j Cons.prems(2) by (rule select_step_ok)
  have 3: "fst kb \<noteq> - 1 \<or> (\<not> in_tree st ! j \<and> dist2 st ! j \<noteq> Infinity)
           \<Longrightarrow> fst (select_step st j kb) \<noteq> - 1"
    using Cons.prems(2) by (rule select_step_found)
  from Cons.IH [OF 1 2] 3 show ?case by auto
qed

lemma mst_select_props:
  "(fst (mst_select st n) = - 1
     \<or> (0 \<le> fst (mst_select st n) \<and> nat (fst (mst_select st n)) < n
         \<and> \<not> in_tree st ! nat (fst (mst_select st n))))
   \<and> ((\<exists>j < n. \<not> in_tree st ! j \<and> dist2 st ! j \<noteq> Infinity) \<longrightarrow> fst (mst_select st n) \<noteq> - 1)"
proof -
  have "pick_ok n st (- 1, Infinity)" by (simp add: pick_ok_def)
  moreover have "\<forall>j \<in> set [0..<n]. j < n" by simp
  ultimately show ?thesis
    unfolding mst_select_def
    using mst_select_fold [of "[0..<n]" n st "(- 1, Infinity)"] by (auto simp add: pick_ok_def)
qed

lemma d2_less_finite: "d2_less x b \<Longrightarrow> x \<noteq> Infinity"
  by (cases x) simp_all

lemma relax_step_keeps:
  assumes "j < n" "k < n" "length (in_tree st) = n" "length (dist2 st) = n"
    "length (parent st) = n" "in_tree st ! k" "frontier_ok n st"
  shows "in_tree (relax_step points k j st) = in_tree st
       \<and> edges (relax_step points k j st) = edges st
       \<and> length (dist2 (relax_step points k j st)) = n
       \<and> length (parent (relax_step points k j st)) = n
       \<and> frontier_ok n (relax_step points k j st)"
proof -
  define d2 where "d2 = euclid2_dbl (fst (points ! k)) (snd (points ! k))
                                    (fst (points ! j)) (snd (points ! j))"
  show ?thesis
  proof (cases "\<not> in_tree st ! j \<and> d2_less d2 (dist2 st ! j)")
    case False
    then have "relax_step points k j st = st"
      by (auto simp add: relax_step_def Let_def d2_def)
    then show ?thesis using assms by simp
  next
    case True
    then have fin: "d2 \<noteq> Infinity" using d2_less_finite by blast
    have eq: "relax_step points k j st
              = st\<lparr>dist2 := (dist2 st)[j := d2], parent := (parent st)[j := int k]\<rparr>"
      using True by (simp add: relax_step_def Let_def d2_def)
    have "frontier_ok n (st\<lparr>dist2 := (dist2 st)[j := d2], parent := (parent st)[j := int k]\<rparr>)"
      unfolding frontier_ok_def
    proof (intro allI impI)
      fix i
      assume i: "i < n"
        "\<not> in_tree (st\<lparr>dist2 := (dist2 st)[j := d2], parent := (parent st)[j := int k]\<rparr>) ! i"
      then have old: "dist2 st ! i \<noteq> Infinity \<and> 0 \<le> parent st ! i \<and> nat (parent st ! i) < n
          \<and> in_tree st ! nat (parent st ! i)"
        using assms(7) by (simp add: frontier_ok_def)
      show "dist2 (st\<lparr>dist2 := (dist2 st)[j := d2], parent := (parent st)[j := int k]\<rparr>) ! i
              \<noteq> Infinity
          \<and> 0 \<le> parent (st\<lparr>dist2 := (dist2 st)[j := d2],
                               parent := (parent st)[j := int k]\<rparr>) ! i
          \<and> nat (parent (st\<lparr>dist2 := (dist2 st)[j := d2],
                                parent := (parent st)[j := int k]\<rparr>) ! i) < n
          \<and> in_tree (st\<lparr>dist2 := (dist2 st)[j := d2], parent := (parent st)[j := int k]\<rparr>)
              ! nat (parent (st\<lparr>dist2 := (dist2 st)[j := d2],
                                 parent := (parent st)[j := int k]\<rparr>) ! i)"
      proof (cases "i = j")
        case True
        then show ?thesis using assms(1,2,4,5,6) fin by simp
      next
        case False
        then show ?thesis using old by simp
      qed
    qed
    then show ?thesis using assms by (simp add: eq)
  qed
qed

lemma mst_relax_fold:
  assumes "\<forall>j \<in> set js. j < n" "k < n" "length (in_tree st) = n" "length (dist2 st) = n"
    "length (parent st) = n" "in_tree st ! k" "frontier_ok n st"
  shows "in_tree (fold (relax_step points k) js st) = in_tree st
       \<and> edges (fold (relax_step points k) js st) = edges st
       \<and> length (dist2 (fold (relax_step points k) js st)) = n
       \<and> length (parent (fold (relax_step points k) js st)) = n
       \<and> frontier_ok n (fold (relax_step points k) js st)"
  using assms
proof (induction js arbitrary: st)
  case Nil
  then show ?case by simp
next
  case (Cons j js)
  let ?st = "relax_step points k j st"
  have j: "j < n" using Cons.prems(1) by simp
  have 1: "\<forall>j \<in> set js. j < n" using Cons.prems(1) by simp
  have keep: "in_tree ?st = in_tree st \<and> edges ?st = edges st \<and> length (dist2 ?st) = n
       \<and> length (parent ?st) = n \<and> frontier_ok n ?st"
    using j Cons.prems(2-7) by (rule relax_step_keeps)
  then have 2: "length (in_tree ?st) = n" "length (dist2 ?st) = n" "length (parent ?st) = n"
    "in_tree ?st ! k" "frontier_ok n ?st"
    using Cons.prems by simp_all
  from Cons.IH [OF 1 Cons.prems(2) 2] keep show ?case by simp
qed

lemma tree_verts_finite: "finite (tree_verts st)"
  by (simp add: tree_verts_def)

lemma tree_verts_range: "length (in_tree st) = n \<Longrightarrow> tree_verts st \<subseteq> {0..<int n}"
  by (auto simp add: tree_verts_def)

lemma tree_verts_mem:
  assumes "length (in_tree st) = n" "0 \<le> v"
  shows "v \<in> tree_verts st \<longleftrightarrow> nat v < n \<and> in_tree st ! nat v"
proof
  assume "v \<in> tree_verts st"
  then show "nat v < n \<and> in_tree st ! nat v" using assms by (auto simp add: tree_verts_def)
next
  assume "nat v < n \<and> in_tree st ! nat v"
  moreover have "v = int (nat v)" using assms(2) by simp
  ultimately show "v \<in> tree_verts st" using assms(1) unfolding tree_verts_def by blast
qed

lemma tree_verts_update:
  assumes "k < length (in_tree st)"
  shows "tree_verts (st\<lparr>in_tree := (in_tree st)[k := True], edges := es\<rparr>)
         = insert (int k) (tree_verts st)"
  using assms by (auto simp add: tree_verts_def nth_list_update)

lemma tree_verts_cong: "in_tree st' = in_tree st \<Longrightarrow> tree_verts st' = tree_verts st"
  by (simp add: tree_verts_def)

lemma mst_round:
  assumes inv: "mst_inv n st" and n: "n = length points"
    and k: "fst (mst_select st n) = k" "k \<noteq> - 1"
  shows "mst_inv n (mst_relax points (nat k)
            (st\<lparr>in_tree := (in_tree st)[nat k := True],
                edges := edges st @ [(k, parent st ! nat k)]\<rparr>))
       \<and> card (tree_verts (mst_relax points (nat k)
            (st\<lparr>in_tree := (in_tree st)[nat k := True],
                edges := edges st @ [(k, parent st ! nat k)]\<rparr>)))
           = Suc (card (tree_verts st))"
proof -
  let ?p = "parent st ! nat k"
  let ?st1 = "st\<lparr>in_tree := (in_tree st)[nat k := True], edges := edges st @ [(k, ?p)]\<rparr>"
  let ?st2 = "mst_relax points (nat k) ?st1"
  have len: "length (in_tree st) = n" "length (dist2 st) = n" "length (parent st) = n"
    and tree: "tree_on (tree_verts st) (edges st)"
    and cnt: "length (edges st) + 1 = card (tree_verts st)"
    and fr: "frontier_ok n st"
    using inv by (simp_all add: mst_inv_def)
  have kk: "0 \<le> k" "nat k < n" "\<not> in_tree st ! nat k"
    using mst_select_props [of st n] k by auto
  have pp: "0 \<le> ?p" "nat ?p < n" "in_tree st ! nat ?p"
    using fr kk by (simp_all add: frontier_ok_def)
  have k_out: "k \<notin> tree_verts st" using kk len by (simp add: tree_verts_mem)
  have p_in: "?p \<in> tree_verts st" using pp len by (simp add: tree_verts_mem)
  have tv1: "tree_verts ?st1 = insert k (tree_verts st)"
    using tree_verts_update [of "nat k" st] kk len by simp
  have tree1: "tree_on (tree_verts ?st1) (edges ?st1)"
    using tree_on_extend [OF tree k_out p_in] tv1 by simp
  have cnt1: "length (edges ?st1) + 1 = card (tree_verts ?st1)"
    using cnt k_out tv1 tree_verts_finite [of st] by simp
  have fr1: "frontier_ok n ?st1"
    using fr kk len by (auto simp add: frontier_ok_def nth_list_update)
  have len1: "length (in_tree ?st1) = n" "length (dist2 ?st1) = n" "length (parent ?st1) = n"
    using len by simp_all
  have in1: "in_tree ?st1 ! nat k" using kk len by simp
  have all: "\<forall>j \<in> set [0..<length points]. j < n" using n by simp
  have r: "in_tree ?st2 = in_tree ?st1 \<and> edges ?st2 = edges ?st1
       \<and> length (dist2 ?st2) = n \<and> length (parent ?st2) = n \<and> frontier_ok n ?st2"
    unfolding mst_relax_def
    using all kk(2) len1 in1 fr1 by (rule mst_relax_fold)
  then have tv2: "tree_verts ?st2 = tree_verts ?st1" by (simp add: tree_verts_cong)
  have "mst_inv n ?st2"
    unfolding mst_inv_def using r tv2 tree1 cnt1 len1 by simp
  moreover have "card (tree_verts ?st2) = Suc (card (tree_verts st))"
    using tv2 tv1 k_out tree_verts_finite [of st] by simp
  ultimately show ?thesis by simp
qed

lemma frontier_nonempty:
  assumes "length (in_tree st) = n" "card (tree_verts st) < n"
  shows "\<exists>j < n. \<not> in_tree st ! j"
proof (rule ccontr)
  assume "\<not> (\<exists>j < n. \<not> in_tree st ! j)"
  then have "tree_verts st = int ` {0..<n}" using assms(1) by (auto simp add: tree_verts_def)
  then have "card (tree_verts st) = n" by (simp add: card_image)
  then show False using assms(2) by simp
qed

lemma mst_loop_inv:
  assumes "mst_inv n st" "n = length points" "card (tree_verts st) + m = n"
  shows "mst_inv n (mst_loop m points st) \<and> card (tree_verts (mst_loop m points st)) = n"
  using assms
proof (induction m arbitrary: st)
  case 0
  then show ?case by simp
next
  case (Suc m)
  define k where "k = fst (mst_select st n)"
  have len: "length (in_tree st) = n" and fr: "frontier_ok n st"
    using Suc.prems(1) by (simp_all add: mst_inv_def)
  have "card (tree_verts st) < n" using Suc.prems(3) by simp
  then obtain j where "j < n" "\<not> in_tree st ! j" using frontier_nonempty [OF len] by blast
  then have "\<exists>j < n. \<not> in_tree st ! j \<and> dist2 st ! j \<noteq> Infinity"
    using fr by (auto simp add: frontier_ok_def)
  then have k: "k \<noteq> - 1" using mst_select_props [of st n] by (simp add: k_def)
  let ?st' = "mst_relax points (nat k)
                (st\<lparr>in_tree := (in_tree st)[nat k := True],
                    edges := edges st @ [(k, parent st ! nat k)]\<rparr>)"
  have step: "mst_loop (Suc m) points st = mst_loop m points ?st'"
    using k Suc.prems(2) by (simp add: k_def Let_def)
  have r: "mst_inv n ?st'" "card (tree_verts ?st') = Suc (card (tree_verts st))"
    using mst_round [OF Suc.prems(1,2) _ k] by (simp_all add: k_def)
  have "card (tree_verts ?st') + m = n" using r(2) Suc.prems(3) by simp
  from Suc.IH [OF r(1) Suc.prems(2) this] show ?case by (simp only: step)
qed

lemma mst_init_inv:
  assumes "n = length points" "0 < n" "root_finite points"
  shows "mst_inv n (mst_init points) \<and> card (tree_verts (mst_init points)) = 1"
proof -
  let ?st0 = "\<lparr>in_tree = (replicate n False)[0 := True], dist2 = replicate n Infinity,
               parent = replicate n (- 1), edges = []\<rparr>"
  have init: "mst_init points = fold (init_step points) [1..<n] ?st0"
    using assms(1) by (simp add: mst_init_def Let_def)
  have "\<forall>j \<in> set [1..<n]. j < n" by simp
  moreover have "length (dist2 ?st0) = n" "length (parent ?st0) = n" by simp_all
  moreover have "\<forall>j \<in> {}. dist2 ?st0 ! j \<noteq> Infinity \<and> parent ?st0 ! j = 0" by simp
  moreover have "\<forall>j \<in> set [1..<n]. euclid2_dbl (fst (points ! 0)) (snd (points ! 0))
                           (fst (points ! j)) (snd (points ! j)) \<noteq> Infinity"
    using assms(1,3) by (simp add: root_finite_def)
  ultimately have f: "in_tree (mst_init points) = in_tree ?st0
       \<and> edges (mst_init points) = edges ?st0
       \<and> length (dist2 (mst_init points)) = n
       \<and> length (parent (mst_init points)) = n
       \<and> (\<forall>j \<in> {} \<union> set [1..<n].
             dist2 (mst_init points) ! j \<noteq> Infinity \<and> parent (mst_init points) ! j = 0)"
    unfolding init by (rule mst_init_fold)
  have it: "in_tree (mst_init points) = (replicate n False)[0 := True]" using f by simp
  have tv: "tree_verts (mst_init points) = {0}"
    using assms(2) by (auto simp add: tree_verts_def it nth_list_update)
  have fr: "frontier_ok n (mst_init points)"
    unfolding frontier_ok_def
  proof (intro allI impI)
    fix j
    assume j: "j < n" "\<not> in_tree (mst_init points) ! j"
    have "j \<noteq> 0"
    proof
      assume "j = 0"
      then have "in_tree (mst_init points) ! j" using assms(2) by (simp add: it)
      then show False using j(2) by simp
    qed
    then have "j \<in> set [1..<n]" using j(1) by simp
    then have "dist2 (mst_init points) ! j \<noteq> Infinity" "parent (mst_init points) ! j = 0"
      using f by simp_all
    then show "dist2 (mst_init points) ! j \<noteq> Infinity \<and> 0 \<le> parent (mst_init points) ! j
        \<and> nat (parent (mst_init points) ! j) < n
        \<and> in_tree (mst_init points) ! nat (parent (mst_init points) ! j)"
      using assms(2) by (simp add: it)
  qed
  have "mst_inv n (mst_init points)"
    unfolding mst_inv_def using f fr tv tree_on_single by (simp add: it)
  then show ?thesis using tv by simp
qed

lemma adj_sym: "sym (adj es)"
  unfolding adj_def by (rule sym_Un_converse)

lemma tree_on_spanning:
  assumes "tree_on {0..<int n} es"
  shows "spanning_tree n es"
proof -
  have reach: "\<forall>v \<in> {0..<int n}. (0, v) \<in> (adj es)\<^sup>*"
    using assms by (simp add: tree_on_def)
  have "connected_over {0..<int n} es"
    unfolding connected_over_def
  proof (intro ballI)
    fix u v
    assume u: "u \<in> {0..<int n}" and v: "v \<in> {0..<int n}"
    have "(0, u) \<in> (adj es)\<^sup>*" using reach u by blast
    then have "(u, 0) \<in> (adj es)\<^sup>*"
      using sym_rtrancl [OF adj_sym [of es]] by (simp add: sym_def)
    moreover have "(0, v) \<in> (adj es)\<^sup>*" using reach v by blast
    ultimately show "(u, v) \<in> (adj es)\<^sup>*" by (rule rtrancl_trans)
  qed
  moreover have "\<forall>(a, b) \<in> set es. 0 \<le> a \<and> a < int n \<and> 0 \<le> b \<and> b < int n"
    using assms by (auto simp add: tree_on_def)
  ultimately show ?thesis using assms by (simp add: spanning_tree_def tree_on_def)
qed

lemma build_mst_edges_tree:
  assumes "2 \<le> length points" "root_finite points"
  shows "length (build_mst_edges points) + 1 = length points
       \<and> spanning_tree (length points) (build_mst_edges points)"
proof -
  define n where "n = length points"
  define st where "st = mst_loop (n - 1) points (mst_init points)"
  have n: "0 < n" "\<not> n \<le> 1" using assms(1) unfolding n_def by linarith+
  have b: "build_mst_edges points = edges st"
    using n by (simp add: build_mst_edges_def Let_def st_def n_def)
  have i: "mst_inv n (mst_init points)" "card (tree_verts (mst_init points)) = 1"
    using mst_init_inv [OF n_def n(1) assms(2)] by simp_all
  have "card (tree_verts (mst_init points)) + (n - 1) = n" using i(2) n by simp
  from mst_loop_inv [OF i(1) n_def this]
  have inv: "mst_inv n st" and c: "card (tree_verts st) = n" by (simp_all add: st_def)
  have len: "length (in_tree st) = n" and tree: "tree_on (tree_verts st) (edges st)"
    and cnt: "length (edges st) + 1 = card (tree_verts st)"
    using inv by (simp_all add: mst_inv_def)
  have "tree_verts st \<subseteq> {0..<int n}" using len by (rule tree_verts_range)
  moreover have "card {0..<int n} = n" by simp
  ultimately have "tree_verts st = {0..<int n}"
    using c card_subset_eq [of "{0..<int n}" "tree_verts st"] by simp
  then have "tree_on {0..<int n} (edges st)" using tree by simp
  then have "spanning_tree n (edges st)" by (rule tree_on_spanning)
  then show ?thesis using cnt c b by (simp add: n_def)
qed

text \<open>
  C4. For a list of \<open>n \<ge> 1\<close> points whose squared distances from point \<open>0\<close>, as
  \<^verbatim>\<open>_euclid2\<close> computes them in doubles, are all finite, \<^verbatim>\<open>build_mst_edges\<close> returns
  exactly \<open>n - 1\<close> edges, and they form a spanning tree of the indices \<open>0, \<dots>, n - 1\<close>:
  every endpoint is an index, no edge is a loop or listed twice, every two indices are
  connected, and there is no cycle. For \<open>n \<le> 1\<close> it returns no edges.
\<close>

theorem mst_spanning_tree:
  "(1 \<le> length points \<and> root_finite points \<longrightarrow>
      length (build_mst_edges points) = length points - 1
      \<and> spanning_tree (length points) (build_mst_edges points))
   \<and> (length points \<le> 1 \<longrightarrow> build_mst_edges points = [])"
proof (intro conjI impI)
  assume "length points \<le> 1"
  then show "build_mst_edges points = []" by (simp add: build_mst_edges_def)
next
  assume n: "1 \<le> length points \<and> root_finite points"
  show "length (build_mst_edges points) = length points - 1"
  proof (cases "length points = 1")
    case True
    then show ?thesis by (simp add: build_mst_edges_def)
  next
    case False
    then have "2 \<le> length points" using n by simp
    from build_mst_edges_tree [OF this] n show ?thesis by linarith
  qed
next
  assume n: "1 \<le> length points \<and> root_finite points"
  show "spanning_tree (length points) (build_mst_edges points)"
  proof (cases "length points = 1")
    case True
    have "{0..<int 1} = {0}" by auto
    then have "tree_on {0..<int 1} []" using tree_on_single by simp
    then have "spanning_tree 1 []" by (rule tree_on_spanning)
    then show ?thesis using True by (simp add: build_mst_edges_def)
  next
    case False
    then have "2 \<le> length points" using n by simp
    from build_mst_edges_tree [OF this] n show ?thesis by simp
  qed
qed

lemma euclid2_dbl_unit: "euclid2_dbl 0 0 1 0 = Finite 1"
proof -
  have a: "rd (- 1) = - 1"
    using rd_eqI_neg [where n = "- 4503599627370496" and b = 52 and x = "- 1"] by simp
  have b: "rd 1 = 1"
    using rd_eqI_neg [where n = 4503599627370496 and b = 52 and x = 1] by simp
  show ?thesis by (simp add: euclid2_dbl_def a b rd_zero overflows_def Let_def)
qed

lemma euclid2_dbl_three: "euclid2_dbl 0 0 3 0 = Finite 9"
proof -
  have a: "rd (- 3) = - 3"
    using rd_eqI_neg [where n = "- 6755399441055744" and b = 51 and x = "- 3"] by simp
  have b: "rd 9 = 9"
    using rd_eqI_neg [where n = 5066549580791808 and b = 49 and x = 9] by simp
  show ?thesis by (simp add: euclid2_dbl_def a b rd_zero overflows_def Let_def)
qed

lemma root_finite_line: "root_finite [(0, 0), (1, 0), (3, 0)]"
  unfolding root_finite_def
proof (intro allI impI)
  fix j :: nat
  assume "1 \<le> j \<and> j < length [(0, 0), (1, 0), (3, 0) :: point]"
  then have "j = 1 \<or> j = 2" by auto
  then show "euclid2_dbl (fst ([(0, 0), (1, 0), (3, 0)] ! 0)) (snd ([(0, 0), (1, 0), (3, 0)] ! 0))
               (fst ([(0, 0), (1, 0), (3, 0)] ! j)) (snd ([(0, 0), (1, 0), (3, 0)] ! j))
             \<noteq> Infinity"
    using euclid2_dbl_unit euclid2_dbl_three by auto
qed

theorem mst_spanning_tree_witness:
  "1 \<le> length [(0, 0), (1, 0), (3, 0) :: point]
   \<and> root_finite [(0, 0), (1, 0), (3, 0)]
   \<and> length (build_mst_edges [(0, 0), (1, 0), (3, 0)]) = length [(0, 0), (1, 0), (3, 0) :: point] - 1
   \<and> spanning_tree (length [(0, 0), (1, 0), (3, 0) :: point])
        (build_mst_edges [(0, 0), (1, 0), (3, 0)])
   \<and> length [(0, 0) :: point] \<le> 1
   \<and> build_mst_edges [(0, 0)] = []"
  using mst_spanning_tree [of "[(0, 0), (1, 0), (3, 0)]"] mst_spanning_tree [of "[(0, 0)]"]
    root_finite_line
  by simp

text \<open>
  The claim as written fails on two points with finite coordinates \<open>2\<^sup>7\<^sup>0\<^sup>0\<close> apart: the
  squared distance overflows to \<^verbatim>\<open>inf\<close>, which is not below \<^verbatim>\<open>best\<close>, nothing is
  selected, and the loop breaks with no edge.
\<close>

lemma euclid2_dbl_far:
  assumes "X = 2 ^ 700"
  shows "euclid2_dbl 0 0 X 0 = Infinity"
proof -
  have a: "rd (- X) = - X"
    using rd_eqI_pos [where n = "- 4503599627370496" and a = 648 and x = "- X"]
    by (simp add: assms)
  have b: "rd (X * X) = X * X"
    using rd_eqI_pos [where n = 4503599627370496 and a = 1348 and x = "X * X"]
    by (simp add: assms)
  have c: "\<not> 2 ^ 1024 \<le> \<bar>X\<bar>" "2 ^ 1024 \<le> \<bar>X * X\<bar>" by (simp_all add: assms)
  have "rd (0 - X) = - X" using a by simp
  moreover have "rd (0 - 0) = 0" by (simp add: rd_zero)
  moreover have "rd (- X * - X) = X * X" using b by simp
  ultimately show ?thesis using c by (simp add: euclid2_dbl_def overflows_def Let_def)
qed

lemma build_mst_edges_far:
  assumes "euclid2_dbl 0 0 X 0 = Infinity"
  shows "build_mst_edges [(0, 0), (X, 0)] = []"
  using assms
  by (simp add: build_mst_edges_def mst_init_def mst_select_def init_step_def select_step_def
      upt_rec [of 0] upt_rec [of 1] Let_def numeral_2_eq_2)

theorem mst_overflow_breaks:
  "length [(0, 0), (2 ^ 700, 0) :: point] = 2
   \<and> build_mst_edges [(0, 0), (2 ^ 700, 0)] = []"
  using build_mst_edges_far [OF euclid2_dbl_far [OF refl]] by simp

subsection \<open>Zoom anchor in double arithmetic\<close>

lemma rd_bound: "\<bar>rd x\<bar> \<le> \<bar>x\<bar> + (u53 * \<bar>x\<bar> + eta)"
  using rd_err [of x] by linarith

lemma fl_Some: "\<bar>x\<bar> \<le> 2 ^ 1000 \<Longrightarrow> fl x = Some (rd x)"
proof -
  assume a: "\<bar>x\<bar> \<le> 2 ^ 1000"
  have "u53 * \<bar>x\<bar> \<le> \<bar>x\<bar>" by (simp add: u53_def mult_left_le_one_le)
  moreover have "eta \<le> 1" by (simp add: eta_def)
  ultimately have "\<bar>rd x\<bar> \<le> 2 * 2 ^ 1000 + 1" using rd_bound [of x] a by linarith
  also have "\<dots> < (2::real) ^ 1024" by simp
  finally show ?thesis by (simp add: fl_def overflows_def)
qed

lemma rd_err_scaled:
  assumes "0 < s"
  shows "\<bar>s * rd x - s * x\<bar> \<le> u53 * \<bar>s * x\<bar> + s * eta"
proof -
  have "\<bar>s * rd x - s * x\<bar> = s * \<bar>rd x - x\<bar>"
    using assms by (simp add: abs_mult flip: right_diff_distrib)
  also have "\<dots> \<le> s * (u53 * \<bar>x\<bar> + eta)"
    using assms rd_err [of x] by (intro mult_left_mono) simp_all
  also have "\<dots> = u53 * \<bar>s * x\<bar> + s * eta"
    using assms by (simp add: abs_mult algebra_simps)
  finally show ?thesis .
qed

lemma scale_pos:
  fixes s :: real
  assumes "1 / 2 ^ 100 \<le> s"
  shows "0 < s"
proof -
  have "(0::real) < 1 / 2 ^ 100" by simp
  then show ?thesis using assms by linarith
qed

lemma unscale:
  fixes s x B :: real
  assumes "1 / 2 ^ 100 \<le> s" "\<bar>s * x\<bar> \<le> B"
  shows "\<bar>x\<bar> \<le> 2 ^ 100 * B"
proof -
  have s: "0 < s" using assms(1) by (rule scale_pos)
  have "\<bar>x\<bar> * (1 / 2 ^ 100) \<le> \<bar>x\<bar> * s" using assms(1) by (intro mult_left_mono) simp_all
  also have "\<dots> = \<bar>s * x\<bar>" using s by (simp add: abs_mult)
  finally have "\<bar>x\<bar> * (1 / 2 ^ 100) \<le> B" using assms(2) by linarith
  then show ?thesis by (simp add: field_simps)
qed

lemma py_int_near:
  assumes "\<bar>r - of_int m\<bar> < 1"
  shows "\<bar>py_int r - m\<bar> \<le> 1"
proof -
  have "r < of_int (m + 1)" "of_int (m - 1) < r" using assms by auto
  then have "\<lfloor>r\<rfloor> < m + 1" "m - 1 \<le> \<lfloor>r\<rfloor>" "m - 1 < \<lceil>r\<rceil>" "\<lceil>r\<rceil> \<le> m + 1"
    by (simp_all only: floor_less_iff le_floor_iff less_ceiling_iff ceiling_le_iff less_imp_le)
  then show ?thesis by (auto simp add: py_int_def)
qed

lemma eta_scaled:
  fixes s :: real
  assumes "0 < s" "s \<le> 2 ^ 100"
  shows "0 \<le> s * eta" "s * eta \<le> 1 / 2 ^ 60"
proof -
  show "0 \<le> s * eta" using assms by (simp add: eta_def)
  have "s * eta \<le> 2 ^ 100 * eta" using assms by (intro mult_right_mono) (simp_all add: eta_def)
  also have "\<dots> \<le> 1 / 2 ^ 60" by (simp add: eta_def)
  finally show "s * eta \<le> 1 / 2 ^ 60" .
qed

text \<open>The linear steps of the error analysis, on quantities scaled to pixels.\<close>

lemma near_small:
  fixes a b H :: real
  assumes "\<bar>a - b\<bar> \<le> u53 * \<bar>b\<bar> + H" "\<bar>b\<bar> \<le> 2 ^ 22" "0 \<le> H" "H \<le> 1 / 2 ^ 60"
  shows "\<bar>a - b\<bar> \<le> 1 / 2 ^ 30"
  using assms by (simp add: u53_def; linarith)

lemma near_big:
  fixes a b H :: real
  assumes "\<bar>a - b\<bar> \<le> u53 * \<bar>b\<bar> + H" "\<bar>b\<bar> \<le> 2 ^ 51" "0 \<le> H" "H \<le> 1 / 2 ^ 60"
  shows "\<bar>a - b\<bar> \<le> 1 / 4 + 1 / 2 ^ 30"
  using assms by (simp add: u53_def; linarith)

lemma near_inv_lin:
  fixes e x H :: real
  assumes "e \<le> u53 * x + H" "x \<le> 2 ^ 50 + e" "0 \<le> H" "H \<le> 1 / 2 ^ 60"
  shows "e \<le> 1 / 8 + 1 / 2 ^ 30"
  using assms by (simp add: u53_def; linarith)

lemma near_inv:
  fixes W X H :: real
  assumes "\<bar>W - X\<bar> \<le> u53 * \<bar>X\<bar> + H" "\<bar>W\<bar> \<le> 2 ^ 50" "0 \<le> H" "H \<le> 1 / 2 ^ 60"
  shows "\<bar>X\<bar> \<le> 2 ^ 51" "\<bar>W - X\<bar> \<le> 1 / 8 + 1 / 2 ^ 30"
proof -
  show "\<bar>X\<bar> \<le> 2 ^ 51" using assms by (simp add: u53_def; linarith)
  have "\<bar>X\<bar> \<le> 2 ^ 50 + \<bar>W - X\<bar>" using assms(2) by linarith
  with assms(1) show "\<bar>W - X\<bar> \<le> 1 / 8 + 1 / 2 ^ 30" using assms(3,4) by (rule near_inv_lin)
qed

lemma tri2:
  fixes a b c :: real
  assumes "c = a + b" "\<bar>a\<bar> \<le> A" "\<bar>b\<bar> \<le> B"
  shows "\<bar>c\<bar> \<le> A + B"
  using assms by linarith

lemma tri3:
  fixes a b c e :: real
  assumes "e = a + b + c" "\<bar>a\<bar> \<le> A" "\<bar>b\<bar> \<le> B" "\<bar>c\<bar> \<le> C"
  shows "\<bar>e\<bar> \<le> A + B + C"
  using assms by linarith

lemma core_before:
  fixes Q P W T d H :: real
  assumes "\<bar>Q - d\<bar> \<le> u53 * \<bar>d\<bar> + H"
    and "\<bar>W - (Q + P)\<bar> \<le> u53 * \<bar>Q + P\<bar> + H"
    and "\<bar>T - (W - P)\<bar> \<le> u53 * \<bar>W - P\<bar> + H"
    and "\<bar>d\<bar> \<le> 2 ^ 20" "\<bar>W\<bar> \<le> 2 ^ 50" "0 \<le> H" "H \<le> 1 / 2 ^ 60"
  shows "\<bar>Q + P\<bar> \<le> 2 ^ 51" "\<bar>W - P\<bar> \<le> 2 ^ 21" "\<bar>T - d\<bar> \<le> 1 / 4"
proof -
  have d: "\<bar>d\<bar> \<le> 2 ^ 22" using assms(4) by simp
  have g: "\<bar>Q - d\<bar> \<le> 1 / 2 ^ 30" using assms(1) d assms(6,7) by (rule near_small)
  have "\<bar>Q\<bar> \<le> 1 / 2 ^ 30 + 2 ^ 20" using tri2 [OF _ g assms(4), of Q] by simp
  then have q: "\<bar>Q\<bar> \<le> 2 ^ 20 + 1" by simp
  show "\<bar>Q + P\<bar> \<le> 2 ^ 51" using assms(2,5,6,7) by (rule near_inv)
  have e: "\<bar>W - (Q + P)\<bar> \<le> 1 / 8 + 1 / 2 ^ 30" using assms(2,5,6,7) by (rule near_inv)
  have "\<bar>W - P\<bar> \<le> 2 ^ 20 + 1 + (1 / 8 + 1 / 2 ^ 30)" using tri2 [OF _ q e, of "W - P"] by simp
  then show y: "\<bar>W - P\<bar> \<le> 2 ^ 21" by simp
  then have "\<bar>W - P\<bar> \<le> 2 ^ 22" by simp
  with assms(3) have f: "\<bar>T - (W - P)\<bar> \<le> 1 / 2 ^ 30" using assms(6,7) by (rule near_small)
  have "\<bar>T - d\<bar> \<le> 1 / 2 ^ 30 + (1 / 8 + 1 / 2 ^ 30) + 1 / 2 ^ 30"
    using tri3 [OF _ f e g, of "T - d"] by simp
  then show "\<bar>T - d\<bar> \<le> 1 / 4" by simp
qed

lemma core_after:
  fixes Q P W T d H :: real
  assumes "\<bar>Q - d\<bar> \<le> u53 * \<bar>d\<bar> + H"
    and "\<bar>P - (W - Q)\<bar> \<le> u53 * \<bar>W - Q\<bar> + H"
    and "\<bar>T - (W - P)\<bar> \<le> u53 * \<bar>W - P\<bar> + H"
    and "\<bar>d\<bar> \<le> 2 ^ 20" "\<bar>W\<bar> \<le> 2 ^ 50" "0 \<le> H" "H \<le> 1 / 2 ^ 60"
  shows "\<bar>W - Q\<bar> \<le> 2 ^ 51" "\<bar>W - P\<bar> \<le> 2 ^ 21" "\<bar>T - d\<bar> \<le> 1 / 4 + 1 / 8"
proof -
  have d: "\<bar>d\<bar> \<le> 2 ^ 22" using assms(4) by simp
  have g: "\<bar>Q - d\<bar> \<le> 1 / 2 ^ 30" using assms(1) d assms(6,7) by (rule near_small)
  have "\<bar>Q\<bar> \<le> 1 / 2 ^ 30 + 2 ^ 20" using tri2 [OF _ g assms(4), of Q] by simp
  then have q: "\<bar>Q\<bar> \<le> 2 ^ 20 + 1" by simp
  have q': "\<bar>- Q\<bar> \<le> 2 ^ 20 + 1" using q by simp
  have "\<bar>W - Q\<bar> \<le> 2 ^ 50 + (2 ^ 20 + 1)" using tri2 [OF _ assms(5) q', of "W - Q"] by simp
  then show x: "\<bar>W - Q\<bar> \<le> 2 ^ 51" by simp
  have e: "\<bar>P - (W - Q)\<bar> \<le> 1 / 4 + 1 / 2 ^ 30" using assms(2) x assms(6,7) by (rule near_big)
  then have e': "\<bar>(W - Q) - P\<bar> \<le> 1 / 4 + 1 / 2 ^ 30" by (simp add: abs_minus_commute)
  have "\<bar>W - P\<bar> \<le> 2 ^ 20 + 1 + (1 / 4 + 1 / 2 ^ 30)" using tri2 [OF _ q e', of "W - P"] by simp
  then show y: "\<bar>W - P\<bar> \<le> 2 ^ 21" by simp
  then have "\<bar>W - P\<bar> \<le> 2 ^ 22" by simp
  with assms(3) have f: "\<bar>T - (W - P)\<bar> \<le> 1 / 2 ^ 30" using assms(6,7) by (rule near_small)
  have "\<bar>T - d\<bar> \<le> 1 / 2 ^ 30 + (1 / 4 + 1 / 2 ^ 30) + 1 / 2 ^ 30"
    using tri3 [OF _ f e' g, of "T - d"] by simp
  then show "\<bar>T - d\<bar> \<le> 1 / 4 + 1 / 8" by simp
qed

text \<open>The last two operations of \<^verbatim>\<open>to_screen\<close>: scale to pixels and add the centre.\<close>

lemma screen_core:
  fixes T t c g r :: real
  assumes "\<bar>T - g\<bar> \<le> 1 / 4 + 1 / 8" "\<bar>g\<bar> \<le> 2 ^ 20" "\<bar>c\<bar> \<le> 2 ^ 20"
    and "\<bar>t - T\<bar> \<le> u53 * \<bar>T\<bar> + eta"
    and "r = c + t \<or> r = c - t"
  shows "\<bar>T\<bar> \<le> 2 ^ 21" "\<bar>r\<bar> \<le> 2 ^ 22" "\<bar>rd r - r\<bar> \<le> 1 / 2 ^ 30" "\<bar>t - g\<bar> \<le> 1 / 2"
proof -
  have h: "0 \<le> eta" "eta \<le> 1 / 2 ^ 60" by (simp_all add: eta_def)
  have "\<bar>T\<bar> \<le> 1 / 4 + 1 / 8 + 2 ^ 20" using tri2 [OF _ assms(1,2), of T] by simp
  then show T: "\<bar>T\<bar> \<le> 2 ^ 21" by simp
  then have "\<bar>T\<bar> \<le> 2 ^ 22" by simp
  with assms(4) have a: "\<bar>t - T\<bar> \<le> 1 / 2 ^ 30" using h by (rule near_small)
  have "\<bar>t - g\<bar> \<le> 1 / 2 ^ 30 + (1 / 4 + 1 / 8)" using tri2 [OF _ a assms(1), of "t - g"] by simp
  then show tg: "\<bar>t - g\<bar> \<le> 1 / 2" by simp
  have "\<bar>t\<bar> \<le> 1 / 2 + 2 ^ 20" using tri2 [OF _ tg assms(2), of t] by simp
  then have t: "\<bar>t\<bar> \<le> 2 ^ 21" "\<bar>- t\<bar> \<le> 2 ^ 21" by simp_all
  have "\<bar>r\<bar> \<le> 2 ^ 20 + 2 ^ 21"
    using assms(5) tri2 [OF _ assms(3) t(1), of "c + t"] tri2 [OF _ assms(3) t(2), of "c - t"]
    by auto
  then show r: "\<bar>r\<bar> \<le> 2 ^ 22" by simp
  show "\<bar>rd r - r\<bar> \<le> 1 / 2 ^ 30" using rd_err [of r] r h by (rule near_small)
qed

lemma fl_unscaled:
  fixes s x B :: real
  assumes "1 / 2 ^ 100 \<le> s" "\<bar>s * x\<bar> \<le> 2 ^ 51"
  shows "fl x = Some (rd x)"
proof -
  have "\<bar>x\<bar> \<le> 2 ^ 100 * 2 ^ 51" using assms by (rule unscale)
  also have "\<dots> \<le> (2::real) ^ 1000" by simp
  finally show ?thesis by (rule fl_Some)
qed

lemma axis_tail:
  fixes t s g c :: real
  assumes "\<bar>t * s - g\<bar> \<le> 1 / 4 + 1 / 8" "\<bar>g\<bar> \<le> 2 ^ 20" "\<bar>c\<bar> \<le> 2 ^ 20"
  shows "fl (t * s) = Some (rd (t * s))"
    and "fl (c + rd (t * s)) = Some (rd (c + rd (t * s)))"
    and "fl (c - rd (t * s)) = Some (rd (c - rd (t * s)))"
    and "\<bar>rd (c + rd (t * s)) - (c + g)\<bar> < 1"
    and "\<bar>rd (c - rd (t * s)) - (c - g)\<bar> < 1"
proof -
  define t2 where "t2 = rd (t * s)"
  have e: "\<bar>t2 - t * s\<bar> \<le> u53 * \<bar>t * s\<bar> + eta" unfolding t2_def by (rule rd_err)
  have T: "\<bar>t * s\<bar> \<le> 2 ^ 21" and tg: "\<bar>t2 - g\<bar> \<le> 1 / 2"
    using screen_core [OF assms e, of "c + t2"] by simp_all
  have p: "\<bar>c + t2\<bar> \<le> 2 ^ 22" "\<bar>rd (c + t2) - (c + t2)\<bar> \<le> 1 / 2 ^ 30"
    using screen_core [OF assms e, of "c + t2"] by simp_all
  have m: "\<bar>c - t2\<bar> \<le> 2 ^ 22" "\<bar>rd (c - t2) - (c - t2)\<bar> \<le> 1 / 2 ^ 30"
    using screen_core [OF assms e, of "c - t2"] by simp_all
  have "\<bar>t * s\<bar> \<le> 2 ^ 1000" using T by (rule order_trans) simp
  then show "fl (t * s) = Some (rd (t * s))" by (rule fl_Some)
  have "\<bar>c + t2\<bar> \<le> 2 ^ 1000" using p(1) by (rule order_trans) simp
  then show "fl (c + rd (t * s)) = Some (rd (c + rd (t * s)))"
    unfolding t2_def by (rule fl_Some)
  have "\<bar>c - t2\<bar> \<le> 2 ^ 1000" using m(1) by (rule order_trans) simp
  then show "fl (c - rd (t * s)) = Some (rd (c - rd (t * s)))"
    unfolding t2_def by (rule fl_Some)
  have "\<bar>rd (c + t2) - (c + g)\<bar> \<le> 1 / 2 ^ 30 + 1 / 2"
    using tri2 [OF _ p(2) tg, of "rd (c + t2) - (c + g)"] by simp
  then show "\<bar>rd (c + rd (t * s)) - (c + g)\<bar> < 1" unfolding t2_def by simp
  have tg': "\<bar>g - t2\<bar> \<le> 1 / 2" using tg by (simp add: abs_minus_commute)
  have "\<bar>rd (c - t2) - (c - g)\<bar> \<le> 1 / 2 ^ 30 + 1 / 2"
    using tri2 [OF _ m(2) tg', of "rd (c - t2) - (c - g)"] by simp
  then show "\<bar>rd (c - rd (t * s)) - (c - g)\<bar> < 1" unfolding t2_def by simp
qed

lemma axis_before:
  fixes s d p w :: real
  assumes "1 / 2 ^ 100 \<le> s" "s \<le> 2 ^ 100" "\<bar>d\<bar> \<le> 2 ^ 20"
    and "w = rd (rd (d / s) + p)" "s * \<bar>w\<bar> \<le> 2 ^ 50"
  shows "fl (d / s) = Some (rd (d / s))"
    and "fl (rd (d / s) + p) = Some w"
    and "fl (w - p) = Some (rd (w - p))"
    and "\<bar>rd (w - p) * s - d\<bar> \<le> 1 / 4 + 1 / 8"
proof -
  have s: "0 < s" using assms(1) by (rule scale_pos)
  have H: "0 \<le> s * eta" "s * eta \<le> 1 / 2 ^ 60" using s assms(2) by (rule eta_scaled)+
  define q where "q = rd (d / s)"
  define t where "t = rd (w - p)"
  have sd: "s * (d / s) = d" using s by simp
  have a1: "\<bar>s * q - d\<bar> \<le> u53 * \<bar>d\<bar> + s * eta"
    using rd_err_scaled [OF s, of "d / s"] unfolding q_def sd .
  have a2: "\<bar>s * w - (s * q + s * p)\<bar> \<le> u53 * \<bar>s * q + s * p\<bar> + s * eta"
    using rd_err_scaled [OF s, of "q + p"] unfolding assms(4) q_def by (simp only: distrib_left)
  have a3: "\<bar>s * t - (s * w - s * p)\<bar> \<le> u53 * \<bar>s * w - s * p\<bar> + s * eta"
    using rd_err_scaled [OF s, of "w - p"] unfolding t_def by (simp only: right_diff_distrib)
  have W: "\<bar>s * w\<bar> \<le> 2 ^ 50" using s assms(5) by (simp add: abs_mult)
  note c = core_before [OF a1 a2 a3 assms(3) W H]
  have "\<bar>s * (d / s)\<bar> \<le> 2 ^ 51" unfolding sd using assms(3) by (rule order_trans) simp
  with assms(1) show "fl (d / s) = Some (rd (d / s))" by (rule fl_unscaled)
  have "\<bar>s * (q + p)\<bar> \<le> 2 ^ 51" using c(1) by (simp only: distrib_left)
  with assms(1) have "fl (q + p) = Some (rd (q + p))" by (rule fl_unscaled)
  then show "fl (rd (d / s) + p) = Some w" unfolding q_def assms(4) .
  have "\<bar>s * w - s * p\<bar> \<le> 2 ^ 51" using c(2) by (rule order_trans) simp
  then have "\<bar>s * (w - p)\<bar> \<le> 2 ^ 51" by (simp only: right_diff_distrib)
  with assms(1) show "fl (w - p) = Some (rd (w - p))" by (rule fl_unscaled)
  have "\<bar>s * t - d\<bar> \<le> 1 / 4 + 1 / 8" using c(3) by simp
  then show "\<bar>rd (w - p) * s - d\<bar> \<le> 1 / 4 + 1 / 8" unfolding t_def by (simp only: mult.commute)
qed

lemma axis_after_x:
  fixes s d p w :: real
  assumes "1 / 2 ^ 100 \<le> s" "s \<le> 2 ^ 100" "\<bar>d\<bar> \<le> 2 ^ 20"
    and "s * \<bar>w\<bar> \<le> 2 ^ 50" "p = rd (w - rd (d / s))"
  shows "fl (d / s) = Some (rd (d / s))"
    and "fl (w - rd (d / s)) = Some p"
    and "fl (w - p) = Some (rd (w - p))"
    and "\<bar>rd (w - p) * s - d\<bar> \<le> 1 / 4 + 1 / 8"
proof -
  have s: "0 < s" using assms(1) by (rule scale_pos)
  have H: "0 \<le> s * eta" "s * eta \<le> 1 / 2 ^ 60" using s assms(2) by (rule eta_scaled)+
  define q where "q = rd (d / s)"
  define t where "t = rd (w - p)"
  have sd: "s * (d / s) = d" using s by simp
  have a1: "\<bar>s * q - d\<bar> \<le> u53 * \<bar>d\<bar> + s * eta"
    using rd_err_scaled [OF s, of "d / s"] unfolding q_def sd .
  have a2: "\<bar>s * p - (s * w - s * q)\<bar> \<le> u53 * \<bar>s * w - s * q\<bar> + s * eta"
    using rd_err_scaled [OF s, of "w - q"] unfolding assms(5) q_def
    by (simp only: right_diff_distrib)
  have a3: "\<bar>s * t - (s * w - s * p)\<bar> \<le> u53 * \<bar>s * w - s * p\<bar> + s * eta"
    using rd_err_scaled [OF s, of "w - p"] unfolding t_def by (simp only: right_diff_distrib)
  have W: "\<bar>s * w\<bar> \<le> 2 ^ 50" using s assms(4) by (simp add: abs_mult)
  note c = core_after [OF a1 a2 a3 assms(3) W H]
  have "\<bar>s * (d / s)\<bar> \<le> 2 ^ 51" unfolding sd using assms(3) by (rule order_trans) simp
  with assms(1) show "fl (d / s) = Some (rd (d / s))" by (rule fl_unscaled)
  have "\<bar>s * (w - q)\<bar> \<le> 2 ^ 51" using c(1) by (simp only: right_diff_distrib)
  with assms(1) have "fl (w - q) = Some (rd (w - q))" by (rule fl_unscaled)
  then show "fl (w - rd (d / s)) = Some p" unfolding q_def assms(5) .
  have "\<bar>s * w - s * p\<bar> \<le> 2 ^ 51" using c(2) by (rule order_trans) simp
  then have "\<bar>s * (w - p)\<bar> \<le> 2 ^ 51" by (simp only: right_diff_distrib)
  with assms(1) show "fl (w - p) = Some (rd (w - p))" by (rule fl_unscaled)
  show "\<bar>rd (w - p) * s - d\<bar> \<le> 1 / 4 + 1 / 8" using c(3) unfolding t_def by (simp only: mult.commute)
qed

lemma axis_after_y:
  fixes s e p w :: real
  assumes "1 / 2 ^ 100 \<le> s" "s \<le> 2 ^ 100" "\<bar>e\<bar> \<le> 2 ^ 20"
    and "s * \<bar>w\<bar> \<le> 2 ^ 50" "p = rd (w + rd (e / s))"
  shows "fl (e / s) = Some (rd (e / s))"
    and "fl (w + rd (e / s)) = Some p"
    and "fl (w - p) = Some (rd (w - p))"
    and "\<bar>rd (w - p) * s - (- e)\<bar> \<le> 1 / 4 + 1 / 8"
proof -
  have s: "0 < s" using assms(1) by (rule scale_pos)
  have H: "0 \<le> s * eta" "s * eta \<le> 1 / 2 ^ 60" using s assms(2) by (rule eta_scaled)+
  define q where "q = rd (e / s)"
  define t where "t = rd (w - p)"
  define Q where "Q = - (s * q)"
  have sd: "s * (e / s) = e" using s by simp
  have "\<bar>s * q - e\<bar> \<le> u53 * \<bar>e\<bar> + s * eta"
    using rd_err_scaled [OF s, of "e / s"] unfolding q_def sd .
  moreover have "\<bar>Q - (- e)\<bar> = \<bar>s * q - e\<bar>" unfolding Q_def by linarith
  ultimately have a1: "\<bar>Q - (- e)\<bar> \<le> u53 * \<bar>- e\<bar> + s * eta" by simp
  have "\<bar>s * p - (s * w + s * q)\<bar> \<le> u53 * \<bar>s * w + s * q\<bar> + s * eta"
    using rd_err_scaled [OF s, of "w + q"] unfolding assms(5) q_def
    by (simp only: distrib_left)
  moreover have "s * w + s * q = s * w - Q" unfolding Q_def by simp
  ultimately have a2: "\<bar>s * p - (s * w - Q)\<bar> \<le> u53 * \<bar>s * w - Q\<bar> + s * eta" by simp
  have a3: "\<bar>s * t - (s * w - s * p)\<bar> \<le> u53 * \<bar>s * w - s * p\<bar> + s * eta"
    using rd_err_scaled [OF s, of "w - p"] unfolding t_def by (simp only: right_diff_distrib)
  have W: "\<bar>s * w\<bar> \<le> 2 ^ 50" using s assms(4) by (simp add: abs_mult)
  have e': "\<bar>- e\<bar> \<le> 2 ^ 20" using assms(3) by simp
  note c = core_after [OF a1 a2 a3 e' W H]
  have "\<bar>s * (e / s)\<bar> \<le> 2 ^ 51" unfolding sd using assms(3) by (rule order_trans) simp
  with assms(1) show "fl (e / s) = Some (rd (e / s))" by (rule fl_unscaled)
  have "s * (w + q) = s * w - Q" unfolding Q_def by (simp add: distrib_left)
  then have "\<bar>s * (w + q)\<bar> \<le> 2 ^ 51" using c(1) by simp
  with assms(1) have "fl (w + q) = Some (rd (w + q))" by (rule fl_unscaled)
  then show "fl (w + rd (e / s)) = Some p" unfolding q_def assms(5) .
  have "\<bar>s * w - s * p\<bar> \<le> 2 ^ 51" using c(2) by (rule order_trans) simp
  then have "\<bar>s * (w - p)\<bar> \<le> 2 ^ 51" by (simp only: right_diff_distrib)
  with assms(1) show "fl (w - p) = Some (rd (w - p))" by (rule fl_unscaled)
  show "\<bar>rd (w - p) * s - (- e)\<bar> \<le> 1 / 4 + 1 / 8"
    using c(3) unfolding t_def by (simp only: mult.commute)
qed

lemma u53_abs_le: "u53 * \<bar>x\<bar> \<le> \<bar>x\<bar>"
  by (simp add: u53_def mult_left_le_one_le)

lemma rd_ZOOM_STEP: "ZOOM_STEP = 5179139571476070 / 2 ^ 52"
  unfolding ZOOM_STEP_def
  using rd_eqI_neg [where n = 5179139571476070 and b = 52 and x = "1.15"] by simp

lemma rd_min_scale: "rd 0.0001 = 7378697629483821 / 2 ^ 66"
  using rd_eqI_neg [where n = 7378697629483821 and b = 66 and x = "0.0001"] by simp

lemma zoom_factor_bound: "\<bar>if dirn > (0::int) then ZOOM_STEP else rd (1 / ZOOM_STEP)\<bar> \<le> 4"
proof -
  have z: "\<bar>ZOOM_STEP\<bar> \<le> 4" "\<bar>1 / ZOOM_STEP\<bar> \<le> 1" by (simp_all add: rd_ZOOM_STEP)
  have "u53 * \<bar>1 / ZOOM_STEP\<bar> \<le> \<bar>1 / ZOOM_STEP\<bar>" by (rule u53_abs_le)
  moreover have "eta \<le> 1 / 2" by (simp add: eta_def)
  ultimately have "\<bar>rd (1 / ZOOM_STEP)\<bar> \<le> 4"
    using rd_bound [of "1 / ZOOM_STEP"] z(2) by linarith
  then show ?thesis using z(1) by simp
qed

lemma k_step:
  fixes zk zf :: real
  assumes "\<bar>zk\<bar> \<le> 2 ^ 100" "\<bar>zf\<bar> \<le> 4"
  shows "fl (zk * zf) = Some (rd (zk * zf))" "\<bar>rd (zk * zf)\<bar> \<le> 2 ^ 104"
proof -
  have "\<bar>zk\<bar> * \<bar>zf\<bar> \<le> 2 ^ 100 * 4" using assms by (intro mult_mono) simp_all
  then have b: "\<bar>zk * zf\<bar> \<le> 2 ^ 102" by (simp add: abs_mult)
  then have "\<bar>zk * zf\<bar> \<le> 2 ^ 1000" by (rule order_trans) simp
  then show "fl (zk * zf) = Some (rd (zk * zf))" by (rule fl_Some)
  have "u53 * \<bar>zk * zf\<bar> \<le> \<bar>zk * zf\<bar>" by (simp add: u53_def mult_left_le_one_le)
  moreover have "eta \<le> 1" by (simp add: eta_def)
  ultimately have "\<bar>rd (zk * zf)\<bar> \<le> 2 * 2 ^ 102 + 1" using rd_bound [of "zk * zf"] b by linarith
  then show "\<bar>rd (zk * zf)\<bar> \<le> 2 ^ 104" by (rule order_trans) simp
qed

lemma scale_step:
  fixes fs k :: real
  assumes "\<bar>fs\<bar> \<le> 2 ^ 100" "\<bar>k\<bar> \<le> 2 ^ 104"
  shows "eff_scale Manual fs k = Some (max (rd 0.0001) (rd (fs * k)))"
proof -
  have "\<bar>fs\<bar> * \<bar>k\<bar> \<le> 2 ^ 100 * 2 ^ 104" using assms by (intro mult_mono) simp_all
  then have "\<bar>fs * k\<bar> \<le> 2 ^ 100 * 2 ^ 104" by (simp add: abs_mult)
  then have "\<bar>fs * k\<bar> \<le> 2 ^ 1000" by (rule order_trans) simp
  then have "fl (fs * k) = Some (rd (fs * k))" by (rule fl_Some)
  then show ?thesis by (simp add: eff_scale_def)
qed

lemma min_scale_low: "1 / 2 ^ 100 \<le> max (rd 0.0001) r"
proof -
  have "(1::real) / 2 ^ 100 \<le> rd 0.0001" unfolding rd_min_scale by simp
  then show ?thesis by simp
qed

lemma pixel_bound:
  fixes i :: int
  assumes "\<bar>i\<bar> \<le> 2 ^ 20"
  shows "\<bar>of_int i :: real\<bar> \<le> 2 ^ 20"
proof -
  have "(of_int \<bar>i\<bar> :: real) \<le> of_int (2 ^ 20)" using assms by (simp only: of_int_le_iff)
  then show ?thesis by simp
qed

text \<open>
  C9. In double arithmetic the anchor holds within a pixel as long as the magnitudes are
  moderate. Let the scale the handler finds lie between \<open>2\<^sup>-\<^sup>1\<^sup>0\<^sup>0\<close> and \<open>2\<^sup>1\<^sup>0\<^sup>0\<close>, the zoom
  factor and the fit scale be at most \<open>2\<^sup>1\<^sup>0\<^sup>0\<close> in magnitude, the plot centre and the
  cursor's offset from it at most \<open>2\<^sup>2\<^sup>0\<close> pixels; let \<open>(wx, wy)\<close> be the world point the
  handler computes for the cursor, \<open>k'\<close> the zoom factor times the step \<^verbatim>\<open>1.15\<close> or its
  reciprocal, and \<open>scale'\<close> the scale recomputed from it. If \<open>scale'\<close> is at most \<open>2\<^sup>1\<^sup>0\<^sup>0\<close> and
  the world point, measured in pixels at the old and at the new scale, is at most \<open>2\<^sup>5\<^sup>0\<close>
  from the world origin on each axis, then no operation overflows, the wheel step returns
  the view in manual mode with zoom factor \<open>k'\<close> and the scale \<open>scale'\<close>, and \<^verbatim>\<open>to_screen\<close>
  maps \<open>(wx, wy)\<close> to within one pixel of the cursor on each axis, before the step and
  after it.
\<close>

theorem zoom_anchor:
  assumes "1 / 2 ^ 100 \<le> scale" "scale \<le> 2 ^ 100"
    and "\<bar>zoom_k v\<bar> \<le> 2 ^ 100" "\<bar>fit_scale\<bar> \<le> 2 ^ 100"
    and "\<bar>cx\<bar> \<le> 2 ^ 20" "\<bar>cy\<bar> \<le> 2 ^ 20" "\<bar>mx - cx\<bar> \<le> 2 ^ 20" "\<bar>my - cy\<bar> \<le> 2 ^ 20"
    and "wx = rd (rd (of_int (mx - cx) / scale) + pan_x_m v)"
    and "wy = rd (rd (of_int (- (my - cy)) / scale) + pan_y_m v)"
    and "k' = rd (zoom_k v * (if dirn > 0 then ZOOM_STEP else rd (1 / ZOOM_STEP)))"
    and "scale' = max (rd 0.0001) (rd (fit_scale * k'))"
    and "scale' \<le> 2 ^ 100"
    and "scale * \<bar>wx\<bar> \<le> 2 ^ 50" "scale * \<bar>wy\<bar> \<le> 2 ^ 50"
    and "scale' * \<bar>wx\<bar> \<le> 2 ^ 50" "scale' * \<bar>wy\<bar> \<le> 2 ^ 50"
  shows "to_world cx cy scale v mx my = Some (wx, wy)
       \<and> (\<exists>v' a b a' b'.
             wheel_evt cx cy False fit_scale scale mx my dirn v = Some (Inr (v', scale'))
           \<and> zoom_mode v' = Manual \<and> zoom_k v' = k'
           \<and> to_screen cx cy scale v wx wy = Some (a, b)
           \<and> \<bar>a - mx\<bar> \<le> 1 \<and> \<bar>b - my\<bar> \<le> 1
           \<and> to_screen cx cy scale' v' wx wy = Some (a', b')
           \<and> \<bar>a' - mx\<bar> \<le> 1 \<and> \<bar>b' - my\<bar> \<le> 1)"
proof -
  have s0: "scale \<noteq> 0" using scale_pos [OF assms(1)] by simp
  have lo': "1 / 2 ^ 100 \<le> scale'" unfolding assms(12) by (rule min_scale_low)
  have cxb: "\<bar>of_int cx :: real\<bar> \<le> 2 ^ 20" using assms(5) by (rule pixel_bound)
  have cyb: "\<bar>of_int cy :: real\<bar> \<le> 2 ^ 20" using assms(6) by (rule pixel_bound)
  have dxb: "\<bar>of_int (mx - cx) :: real\<bar> \<le> 2 ^ 20" using assms(7) by (rule pixel_bound)
  have eyb: "\<bar>of_int (my - cy) :: real\<bar> \<le> 2 ^ 20" using assms(8) by (rule pixel_bound)
  have "\<bar>- (my - cy)\<bar> \<le> 2 ^ 20" using assms(8) by simp
  then have dyb: "\<bar>of_int (- (my - cy)) :: real\<bar> \<le> 2 ^ 20" by (rule pixel_bound)
  have sumx: "of_int cx + of_int (mx - cx) = (of_int mx :: real)" by simp
  have sumy: "of_int cy - of_int (- (my - cy)) = (of_int my :: real)" by simp
  have sumy': "of_int cy - - of_int (my - cy) = (of_int my :: real)" by simp
  define px where "px = rd (wx - rd (of_int (mx - cx) / scale'))"
  define py where "py = rd (wy + rd (of_int (my - cy) / scale'))"
  define v' where "v' = v\<lparr>zoom_mode := Manual, zoom_k := k', pan_x_m := px, pan_y_m := py\<rparr>"
  have pv: "pan_x_m v' = px" "pan_y_m v' = py" "zoom_mode v' = Manual" "zoom_k v' = k'"
    by (simp_all add: v'_def)
  note bX = axis_before [OF assms(1,2) dxb assms(9) assms(14)]
  note bY = axis_before [OF assms(1,2) dyb assms(10) assms(15)]
  note tx = axis_tail [OF bX(4) dxb cxb]
  note ty = axis_tail [OF bY(4) dyb cyb]
  note ax = axis_after_x [OF lo' assms(13) dxb assms(16) px_def]
  note ay = axis_after_y [OF lo' assms(13) eyb assms(17) py_def]
  note ux = axis_tail [OF ax(4) dxb cxb]
  have "\<bar>- of_int (my - cy) :: real\<bar> \<le> 2 ^ 20" using eyb by simp
  note uy = axis_tail [OF ay(4) this cyb]
  note kk = k_step [OF assms(3) zoom_factor_bound [of dirn], folded assms(11)]
  have es: "eff_scale Manual fit_scale k' = Some scale'"
    unfolding assms(12) using assms(4) kk(2) by (rule scale_step)
  have tw: "to_world cx cy scale v mx my = Some (wx, wy)"
    unfolding to_world_def by (simp only: bX(1,2) bY(1,2) Option.bind.simps)
  have ev: "wheel_evt cx cy False fit_scale scale mx my dirn v = Some (Inr (v', scale'))"
    unfolding wheel_evt_def v'_def
    by (simp only: s0 if_False bX(1,2) bY(1,2) kk(1) es ax(1,2) ay(1,2) Option.bind.simps)
  define a where "a = py_int (rd (of_int cx + rd (rd (wx - pan_x_m v) * scale)))"
  define b where "b = py_int (rd (of_int cy - rd (rd (wy - pan_y_m v) * scale)))"
  define a' where "a' = py_int (rd (of_int cx + rd (rd (wx - px) * scale')))"
  define b' where "b' = py_int (rd (of_int cy - rd (rd (wy - py) * scale')))"
  have sb: "to_screen cx cy scale v wx wy = Some (a, b)"
    unfolding to_screen_def a_def b_def
    by (simp only: bX(3) bY(3) tx(1,2) ty(1,3) Option.bind.simps)
  have sa: "to_screen cx cy scale' v' wx wy = Some (a', b')"
    unfolding to_screen_def a'_def b'_def pv
    by (simp only: ax(3) ay(3) ux(1,2) uy(1,3) Option.bind.simps)
  have na: "\<bar>a - mx\<bar> \<le> 1" unfolding a_def using tx(4) unfolding sumx by (rule py_int_near)
  have nb: "\<bar>b - my\<bar> \<le> 1" unfolding b_def using ty(5) unfolding sumy by (rule py_int_near)
  have na': "\<bar>a' - mx\<bar> \<le> 1" unfolding a'_def using ux(4) unfolding sumx by (rule py_int_near)
  have nb': "\<bar>b' - my\<bar> \<le> 1" unfolding b'_def using uy(5) unfolding sumy' by (rule py_int_near)
  show ?thesis using tw ev pv(3,4) sb sa na nb na' nb' by blast
qed

theorem zoom_anchor_witness:
  "1 / 2 ^ 100 \<le> (2::real) \<and> (2::real) \<le> 2 ^ 100
   \<and> \<bar>zoom_k \<lparr>zoom_mode = Fit, zoom_k = 1, pan_x_m = 0, pan_y_m = 0, side_scroll = 0\<rparr>\<bar>
       \<le> 2 ^ 100
   \<and> \<bar>2::real\<bar> \<le> 2 ^ 100
   \<and> \<bar>100::int\<bar> \<le> 2 ^ 20 \<and> \<bar>110 - 100 :: int\<bar> \<le> 2 ^ 20 \<and> \<bar>90 - 100 :: int\<bar> \<le> 2 ^ 20
   \<and> (5::real) = rd (rd (of_int (110 - 100) / 2)
        + pan_x_m \<lparr>zoom_mode = Fit, zoom_k = 1, pan_x_m = 0, pan_y_m = 0, side_scroll = 0\<rparr>)
   \<and> (5::real) = rd (rd (of_int (- (90 - 100)) / 2)
        + pan_y_m \<lparr>zoom_mode = Fit, zoom_k = 1, pan_x_m = 0, pan_y_m = 0, side_scroll = 0\<rparr>)
   \<and> 5179139571476070 / 2 ^ 52
       = rd (zoom_k \<lparr>zoom_mode = Fit, zoom_k = 1, pan_x_m = 0, pan_y_m = 0, side_scroll = 0\<rparr>
             * (if (1::int) > 0 then ZOOM_STEP else rd (1 / ZOOM_STEP)))
   \<and> 5179139571476070 / 2 ^ 51 = max (rd 0.0001) (rd (2 * (5179139571476070 / 2 ^ 52)))
   \<and> (5179139571476070 / 2 ^ 51 :: real) \<le> 2 ^ 100
   \<and> (2::real) * \<bar>5\<bar> \<le> 2 ^ 50
   \<and> (5179139571476070 / 2 ^ 51 :: real) * \<bar>5\<bar> \<le> 2 ^ 50
   \<and> to_world 100 100 2
         \<lparr>zoom_mode = Fit, zoom_k = 1, pan_x_m = 0, pan_y_m = 0, side_scroll = 0\<rparr> 110 90
       = Some (5, 5)
   \<and> (\<exists>v' a b a' b'.
         wheel_evt 100 100 False 2 2 110 90 1
           \<lparr>zoom_mode = Fit, zoom_k = 1, pan_x_m = 0, pan_y_m = 0, side_scroll = 0\<rparr>
         = Some (Inr (v', 5179139571476070 / 2 ^ 51))
         \<and> zoom_mode v' = Manual \<and> zoom_k v' = 5179139571476070 / 2 ^ 52
         \<and> to_screen 100 100 2
              \<lparr>zoom_mode = Fit, zoom_k = 1, pan_x_m = 0, pan_y_m = 0, side_scroll = 0\<rparr> 5 5
            = Some (a, b)
         \<and> \<bar>a - 110\<bar> \<le> 1 \<and> \<bar>b - 90\<bar> \<le> 1
         \<and> to_screen 100 100 (5179139571476070 / 2 ^ 51) v' 5 5 = Some (a', b')
         \<and> \<bar>a' - 110\<bar> \<le> 1 \<and> \<bar>b' - 90\<bar> \<le> 1)"
proof -
  let ?v = "\<lparr>zoom_mode = Fit, zoom_k = 1, pan_x_m = 0, pan_y_m = 0, side_scroll = 0\<rparr>"
  have r5: "rd 5 = 5"
    using rd_eqI_neg [where x = 5 and n = 5629499534213120 and b = 50] by simp
  have rZ: "rd ZOOM_STEP = ZOOM_STEP"
    unfolding rd_ZOOM_STEP
    using rd_eqI_neg [where x = "5179139571476070 / 2 ^ 52" and n = 5179139571476070 and b = 52]
    by simp
  have r2: "rd (2 * (5179139571476070 / 2 ^ 52)) = 5179139571476070 / 2 ^ 51"
    using rd_eqI_neg [where x = "2 * (5179139571476070 / 2 ^ 52)" and n = 5179139571476070
        and b = 51]
    by simp
  have h1: "1 / 2 ^ 100 \<le> (2::real)" by simp
  have h2: "(2::real) \<le> 2 ^ 100" by simp
  have h3: "\<bar>zoom_k ?v\<bar> \<le> 2 ^ 100" by simp
  have h4: "\<bar>2::real\<bar> \<le> 2 ^ 100" by simp
  have h5: "\<bar>100::int\<bar> \<le> 2 ^ 20" by simp
  have h7: "\<bar>110 - 100 :: int\<bar> \<le> 2 ^ 20" by simp
  have h8: "\<bar>90 - 100 :: int\<bar> \<le> 2 ^ 20" by simp
  have h9: "(5::real) = rd (rd (of_int (110 - 100) / 2) + pan_x_m ?v)" by (simp add: r5)
  have h10: "(5::real) = rd (rd (of_int (- (90 - 100)) / 2) + pan_y_m ?v)" by (simp add: r5)
  have h11: "5179139571476070 / 2 ^ 52
       = rd (zoom_k ?v * (if (1::int) > 0 then ZOOM_STEP else rd (1 / ZOOM_STEP)))"
    by (simp add: rZ, simp add: rd_ZOOM_STEP)
  have h12: "5179139571476070 / 2 ^ 51 = max (rd 0.0001) (rd (2 * (5179139571476070 / 2 ^ 52)))"
    unfolding r2 rd_min_scale by simp
  have h13: "(5179139571476070 / 2 ^ 51 :: real) \<le> 2 ^ 100" by simp
  have h14: "(2::real) * \<bar>5\<bar> \<le> 2 ^ 50" by simp
  have h16: "(5179139571476070 / 2 ^ 51 :: real) * \<bar>5\<bar> \<le> 2 ^ 50" by simp
  note z = zoom_anchor [OF h1 h2 h3 h4 h5 h5 h7 h8 h9 h10 h11 h12 h13 h14 h14 h16 h16]
  note c1 = conjunct1 [OF z] and c2 = conjunct2 [OF z]
  show ?thesis
    by (intro conjI) (rule h1 h2 h3 h4 h5 h7 h8 h9 h10 h11 h12 h13 h14 h16 c1 c2)+
qed

lemma fl_evalI:
  assumes "b \<le> 1074" "2 ^ 52 / 2 ^ b \<le> \<bar>x\<bar>" "\<bar>x\<bar> < 2 ^ 53 / 2 ^ b"
    and "\<bar>x * 2 ^ b - of_int n\<bar> < 1 / 2"
  shows "fl x = Some (of_int n / 2 ^ b)"
proof -
  have r: "rd x = of_int n / 2 ^ b" using assms by (rule rd_eqI_neg)
  have "(2::real) ^ 53 / 2 ^ b \<le> 2 ^ 53" by (simp add: field_simps)
  moreover have "(2::real) ^ 53 \<le> 2 ^ 1000" by simp
  ultimately have "\<bar>x\<bar> \<le> 2 ^ 1000" using assms(3) by linarith
  then have "fl x = Some (rd x)" by (rule fl_Some)
  then show ?thesis unfolding r .
qed

lemma fl_zero: "fl 0 = Some 0"
  by (simp add: fl_def rd_zero overflows_def)

text \<open>
  Without the bound on the world point the anchor is lost. At zoom factor \<open>2\<^sup>4\<^sup>2\<close> and fit
  scale \<open>1\<close>, panned \<open>50 km\<close> east, with the cursor ten pixels right of the plot centre, the
  world point under the cursor rounds to \<^verbatim>\<open>50000.0\<close>, the pan solved for after the zoom
  rounds to \<^verbatim>\<open>50000.0\<close> again, and \<^verbatim>\<open>to_screen\<close> puts the point at pixel \<open>500\<close>, ten pixels
  from the cursor at \<open>510\<close>.
\<close>

theorem wheel_anchor_drift:
  "eff_scale Manual 1 (2 ^ 42) = Some (2 ^ 42)
   \<and> to_world 500 300 (2 ^ 42)
        \<lparr>zoom_mode = Manual, zoom_k = 2 ^ 42, pan_x_m = 50000, pan_y_m = 0, side_scroll = 0\<rparr>
        510 300 = Some (50000, 0)
   \<and> wheel_evt 500 300 False 1 (2 ^ 42) 510 300 1
        \<lparr>zoom_mode = Manual, zoom_k = 2 ^ 42, pan_x_m = 50000, pan_y_m = 0, side_scroll = 0\<rparr>
      = Some (Inr (\<lparr>zoom_mode = Manual, zoom_k = 5179139571476070 / 2 ^ 10,
                     pan_x_m = 50000, pan_y_m = 0, side_scroll = 0\<rparr>,
                   5179139571476070 / 2 ^ 10))
   \<and> to_screen 500 300 (5179139571476070 / 2 ^ 10)
        \<lparr>zoom_mode = Manual, zoom_k = 5179139571476070 / 2 ^ 10,
           pan_x_m = 50000, pan_y_m = 0, side_scroll = 0\<rparr> 50000 0
      = Some (500, 300)"
proof -
  have s0: "(2::real) ^ 42 \<noteq> 0" by simp
  have m: "max (rd 0.0001) (2 ^ 42) = 2 ^ 42"
    "max (rd 0.0001) (5179139571476070 / 2 ^ 10) = 5179139571476070 / 2 ^ 10"
    unfolding rd_min_scale by simp_all
  have e0: "fl (1 * 2 ^ 42) = Some (2 ^ 42)"
    using fl_evalI [where x = "1 * 2 ^ 42" and n = "2 ^ 52" and b = 10] by simp
  have f1: "fl (of_int (510 - 500) / 2 ^ 42) = Some (10 / 2 ^ 42)"
    using fl_evalI [where x = "of_int (510 - 500) / 2 ^ 42" and n = 5629499534213120 and b = 91]
    by simp
  have f2: "fl (10 / 2 ^ 42 + 50000) = Some 50000"
    using fl_evalI [where x = "10 / 2 ^ 42 + 50000" and n = 6871947673600000 and b = 37]
    by simp
  have f3: "fl (of_int (- (300 - 300)) / 2 ^ 42) = Some 0" by (simp add: fl_zero)
  have f4: "fl (0 + 0) = Some 0" by (simp add: fl_zero)
  have f5: "fl (2 ^ 42 * ZOOM_STEP) = Some (5179139571476070 / 2 ^ 10)"
    unfolding rd_ZOOM_STEP
    using fl_evalI [where x = "2 ^ 42 * (5179139571476070 / 2 ^ 52)" and n = 5179139571476070
        and b = 10]
    by simp
  have f6: "fl (1 * (5179139571476070 / 2 ^ 10)) = Some (5179139571476070 / 2 ^ 10)"
    using fl_evalI [where x = "1 * (5179139571476070 / 2 ^ 10)" and n = 5179139571476070
        and b = 10]
    by simp
  have f7: "fl (of_int (510 - 500) / (5179139571476070 / 2 ^ 10))
            = Some (4895216986272279 / 2 ^ 91)"
    using fl_evalI [where x = "of_int (510 - 500) / (5179139571476070 / 2 ^ 10)"
        and n = 4895216986272279 and b = 91]
    by simp
  have f8: "fl (50000 - 4895216986272279 / 2 ^ 91) = Some 50000"
    using fl_evalI [where x = "50000 - 4895216986272279 / 2 ^ 91" and n = 6871947673600000
        and b = 37]
    by simp
  have f9: "fl (of_int (300 - 300) / (5179139571476070 / 2 ^ 10)) = Some 0"
    by (simp add: fl_zero)
  have g1: "fl (50000 - 50000) = Some 0" by (simp add: fl_zero)
  have g2: "fl (0 * (5179139571476070 / 2 ^ 10)) = Some 0" by (simp add: fl_zero)
  have g3: "fl (of_int 500 + 0) = Some 500"
    using fl_evalI [where x = "of_int 500 + 0" and n = 8796093022208000 and b = 44] by simp
  have g4: "fl (0 - 0) = Some 0" by (simp add: fl_zero)
  have g6: "fl (of_int 300 - 0) = Some 300"
    using fl_evalI [where x = "of_int 300 - 0" and n = 5277655813324800 and b = 44] by simp
  have p: "py_int 500 = 500" "py_int 300 = 300" by (simp_all add: py_int_def)
  have "eff_scale Manual 1 (2 ^ 42) = Some (2 ^ 42)"
    unfolding eff_scale_def
    by (simp only: zoom_mode.distinct if_False e0 Option.bind.simps m)
  moreover have "to_world 500 300 (2 ^ 42)
        \<lparr>zoom_mode = Manual, zoom_k = 2 ^ 42, pan_x_m = 50000, pan_y_m = 0, side_scroll = 0\<rparr>
        510 300 = Some (50000, 0)"
    unfolding to_world_def
    by (simp only: view.select_convs f1 f2 f3 f4 Option.bind.simps)
  moreover have "eff_scale Manual 1 (5179139571476070 / 2 ^ 10) = Some (5179139571476070 / 2 ^ 10)"
    unfolding eff_scale_def
    by (simp only: zoom_mode.distinct if_False f6 Option.bind.simps m)
  then have "wheel_evt 500 300 False 1 (2 ^ 42) 510 300 1
        \<lparr>zoom_mode = Manual, zoom_k = 2 ^ 42, pan_x_m = 50000, pan_y_m = 0, side_scroll = 0\<rparr>
      = Some (Inr (\<lparr>zoom_mode = Manual, zoom_k = 5179139571476070 / 2 ^ 10,
                     pan_x_m = 50000, pan_y_m = 0, side_scroll = 0\<rparr>,
                   5179139571476070 / 2 ^ 10))"
    unfolding wheel_evt_def
    by (simp only: s0 if_False if_True zero_less_one view.select_convs view.update_convs
        f1 f2 f3 f4 f5 f7 f8 f9 Option.bind.simps)
  moreover have "to_screen 500 300 (5179139571476070 / 2 ^ 10)
        \<lparr>zoom_mode = Manual, zoom_k = 5179139571476070 / 2 ^ 10,
           pan_x_m = 50000, pan_y_m = 0, side_scroll = 0\<rparr> 50000 0
      = Some (500, 300)"
    unfolding to_screen_def
    by (simp only: view.select_convs g1 g2 g3 g4 g6 p Option.bind.simps)
  ultimately show ?thesis by (intro conjI)
qed

end
